theory Spec2Isabelle
  imports Main "HOL-Library.Sublist"
begin

section \<open>Python strings\<close>

text \<open>
  A Python \<open>str\<close> is a sequence of Unicode code points, so text is modelled as a list of
  code points (integers, as \<open>ord\<close> gives them), not as a list of bytes. \<open>str\<close> turns an ASCII literal
  into such a list; the backslash is written as the code point \<open>92\<close>, the line feed as
  \<open>10\<close> and the tabulator as \<open>9\<close>.
\<close>

type_synonym pystr = "int list"

definition str :: "string \<Rightarrow> pystr" where
  "str s = map of_char s"

text \<open>
  The code points for which \<open>str.isspace\<close> holds. Both \<open>str.strip()\<close> without argument and
  the class \<open>\s\<close> of a \<open>str\<close> pattern use this test.
\<close>

definition is_space :: "int \<Rightarrow> bool" where
  "is_space c \<longleftrightarrow>
     (9 \<le> c \<and> c \<le> 13) \<or> (28 \<le> c \<and> c \<le> 32) \<or> c = 133 \<or> c = 160 \<or> c = 5760 \<or>
     (8192 \<le> c \<and> c \<le> 8202) \<or> c = 8232 \<or> c = 8233 \<or> c = 8239 \<or> c = 8287 \<or> c = 12288"

definition strip :: "pystr \<Rightarrow> pystr" where
  "strip s = rev (dropWhile is_space (rev (dropWhile is_space s)))"

text \<open>
  \<open>s.replace(old, new)\<close>: the occurrences of \<open>old\<close> are found from left to right and do
  not overlap. With an empty \<open>old\<close> Python puts \<open>new\<close> before every character and at
  the end.
\<close>

function replace :: "pystr \<Rightarrow> pystr \<Rightarrow> pystr \<Rightarrow> pystr" where
  "replace old new [] = (if old = [] then new else [])"
| "replace old new (c # cs) =
     (if old = [] then new @ c # replace old new cs
      else if prefix old (c # cs) then new @ replace old new (drop (length old) (c # cs))
      else c # replace old new cs)"
  by pat_completeness auto
termination
  by (relation "measure (\<lambda>(old, new, s). length s)") (auto simp: neq_Nil_conv)

section \<open>Regular expressions\<close>

text \<open>
  The patterns of the program use literal characters, \<open>.\<close> (under \<open>re.DOTALL\<close>, so it
  matches every character), \<open>\s\<close>, the negated class \<open>[^{}]\<close>, concatenation, the greedy
  star and the lazy star. \<open>paths r s\<close> lists the remainders of \<open>s\<close> that are left after a
  match of \<open>r\<close> at the start of \<open>s\<close>, in the order in which a backtracking matcher
  tries them: a greedy star tries one more repetition before it tries to stop, a lazy
  star the other way round. A repetition that consumes nothing is not taken again;
  the starred patterns of the program always consume a character.
\<close>

datatype regex =
    Eps
  | Lit int
  | Dot
  | Space
  | NoneOf "int list"
  | Cat regex regex
  | Star regex
  | LazyStar regex

function paths :: "regex \<Rightarrow> pystr \<Rightarrow> pystr list" where
  "paths Eps s = [s]"
| "paths (Lit c) s = (case s of [] \<Rightarrow> [] | x # xs \<Rightarrow> if x = c then [xs] else [])"
| "paths Dot s = (case s of [] \<Rightarrow> [] | x # xs \<Rightarrow> [xs])"
| "paths Space s = (case s of [] \<Rightarrow> [] | x # xs \<Rightarrow> if is_space x then [xs] else [])"
| "paths (NoneOf cs) s = (case s of [] \<Rightarrow> [] | x # xs \<Rightarrow> if x \<in> set cs then [] else [xs])"
| "paths (Cat a b) s = concat (map (paths b) (paths a s))"
| "paths (Star a) s =
     concat (map (\<lambda>t. if length t < length s then paths (Star a) t else []) (paths a s)) @ [s]"
| "paths (LazyStar a) s =
     s # concat (map (\<lambda>t. if length t < length s then paths (LazyStar a) t else []) (paths a s))"
  by pat_completeness auto
termination
  by (relation "measure size <*lex*> measure length") auto

fun Lits :: "pystr \<Rightarrow> regex" where
  "Lits [] = Eps"
| "Lits (c # cs) = Cat (Lit c) (Lits cs)"

text \<open>
  A pattern with one capture group is given by the part before the group, the group and
  the part after it. \<open>match_at\<close> is the text captured by the first successful path of
  the matcher at the start of \<open>s\<close>; \<open>search\<close> is \<open>re.search(...)\<close> followed by reading the
  group: the start positions are tried from left to right, the end of the text included.
\<close>

definition match_at :: "regex \<Rightarrow> regex \<Rightarrow> regex \<Rightarrow> pystr \<Rightarrow> pystr option" where
  "match_at pre grp post s =
     (case concat (map (\<lambda>s1. concat (map (\<lambda>s2. map (\<lambda>s3. take (length s1 - length s2) s1)
                                                  (paths post s2))
                                        (paths grp s1)))
                       (paths pre s)) of
        [] \<Rightarrow> None
      | g # _ \<Rightarrow> Some g)"

fun search :: "regex \<Rightarrow> regex \<Rightarrow> regex \<Rightarrow> pystr \<Rightarrow> pystr option" where
  "search pre grp post [] = match_at pre grp post []"
| "search pre grp post (c # cs) =
     (case match_at pre grp post (c # cs) of
        Some g \<Rightarrow> Some g
      | None \<Rightarrow> search pre grp post cs)"

text \<open>\<^verbatim>\<open>```json\s*(\{.*?\})\s*```\<close>, group 1.\<close>

definition search_fenced :: "pystr \<Rightarrow> pystr option" where
  "search_fenced text =
     search (Cat (Lits (str ''```json'')) (Star Space))
            (Cat (Lit 123) (Cat (LazyStar Dot) (Lit 125)))
            (Cat (Star Space) (Lits (str ''```'')))
            text"

text \<open>\<^verbatim>\<open>\{.*\}\<close>, group 0.\<close>

definition search_braces :: "pystr \<Rightarrow> pystr option" where
  "search_braces text = search Eps (Cat (Lit 123) (Cat (Star Dot) (Lit 125))) Eps text"

text \<open>\<^verbatim>\<open>(\{[^{}]*(?:\{[^{}]*\}[^{}]*)*\})\<close>, group 1.\<close>

definition search_object :: "pystr \<Rightarrow> pystr option" where
  "search_object text =
     search Eps
            (Cat (Lit 123)
              (Cat (Star (NoneOf [123, 125]))
                (Cat (Star (Cat (Lit 123)
                         (Cat (Star (NoneOf [123, 125]))
                           (Cat (Lit 125) (Star (NoneOf [123, 125]))))))
                  (Lit 125))))
            Eps text"

section \<open>Cleaning the model output\<close>

definition clean_text :: "pystr \<Rightarrow> pystr" where
  "clean_text text =
     (if text = [] then []
      else
        let text1 =
              (case search_fenced text of
                 Some g \<Rightarrow> g
               | None \<Rightarrow>
                   let t = replace (str ''```'') [] (replace (str ''```json'') [] text)
                   in (case search_braces t of Some g \<Rightarrow> g | None \<Rightarrow> t));
            text2 = strip text1;
            text3 = replace [92, 110] [10] text2;
            text4 = replace [92, 116] [9] text3;
            text5 = replace [92, 34] [34] text4;
            text6 = replace [92, 92] [92] text5;
            text7 = replace [92, 39] [39] text6
        in text7)"

section \<open>JSON values and \<open>json.loads\<close>\<close>

text \<open>
  The values that \<open>json.loads\<close> returns: \<open>None\<close>, booleans, integers, floats, strings,
  lists and dictionaries. A float is kept as the text of its literal (\<open>NaN\<close>,
  \<open>Infinity\<close> and \<open>-Infinity\<close> included), since nothing in the program computes with
  it. A dictionary is an association list with distinct keys in insertion order.
\<close>

datatype json =
    JNull
  | JBool bool
  | JInt int
  | JFloat pystr
  | JStr pystr
  | JArr "json list"
  | JObj "(pystr \<times> json) list"

type_synonym dict = "(pystr \<times> json) list"

text \<open>\<open>d[k] = v\<close>: an existing key keeps its position.\<close>

fun dict_set :: "dict \<Rightarrow> pystr \<Rightarrow> json \<Rightarrow> dict" where
  "dict_set [] k v = [(k, v)]"
| "dict_set ((k', v') # d) k v = (if k' = k then (k, v) # d else (k', v') # dict_set d k v)"

text \<open>
  The decoder follows the scanner of CPython's \<open>json\<close> module in its default
  configuration (\<open>strict=True\<close>, no hooks). Every failure is a \<open>JSONDecodeError\<close> there
  and \<open>None\<close> here. The limits of the interpreter (recursion depth, digits of an
  integer) are not modelled.
\<close>

definition json_ws :: "int \<Rightarrow> bool" where
  "json_ws c \<longleftrightarrow> c = 32 \<or> c = 9 \<or> c = 10 \<or> c = 13"

definition skip_ws :: "pystr \<Rightarrow> pystr" where
  "skip_ws s = dropWhile json_ws s"

definition is_digit :: "int \<Rightarrow> bool" where
  "is_digit c \<longleftrightarrow> 48 \<le> c \<and> c \<le> 57"

definition hexval :: "int \<Rightarrow> int option" where
  "hexval c =
     (if 48 \<le> c \<and> c \<le> 57 then Some (c - 48)
      else if 97 \<le> c \<and> c \<le> 102 then Some (c - 87)
      else if 65 \<le> c \<and> c \<le> 70 then Some (c - 55)
      else None)"

fun hex4 :: "pystr \<Rightarrow> int option" where
  "hex4 [a, b, c, d] =
     (case (hexval a, hexval b, hexval c, hexval d) of
        (Some x, Some y, Some z, Some w) \<Rightarrow> Some (((x * 16 + y) * 16 + z) * 16 + w)
      | _ \<Rightarrow> None)"
| "hex4 _ = None"

definition backslash :: "int \<Rightarrow> int option" where
  "backslash e =
     (if e = 34 then Some 34 else if e = 92 then Some 92 else if e = 47 then Some 47
      else if e = 98 then Some 8 else if e = 102 then Some 12 else if e = 110 then Some 10
      else if e = 114 then Some 13 else if e = 116 then Some 9 else None)"

definition push :: "int \<Rightarrow> (pystr \<times> pystr) option \<Rightarrow> (pystr \<times> pystr) option" where
  "push c r = (case r of None \<Rightarrow> None | Some (x, rest) \<Rightarrow> Some (c # x, rest))"

text \<open>
  \<open>scan_escape\<close> decodes the escape that follows a backslash and returns the code point
  and the text after the escape. A high surrogate escape directly followed by a low
  surrogate escape is joined into one code point.
\<close>

definition scan_escape :: "pystr \<Rightarrow> (int \<times> pystr) option" where
  "scan_escape cs =
     (case cs of
        [] \<Rightarrow> None
      | e # es \<Rightarrow>
          if e = 117 then
            (case hex4 (take 4 es) of
               None \<Rightarrow> None
             | Some u \<Rightarrow>
                 if 55296 \<le> u \<and> u \<le> 56319 \<and> take 2 (drop 4 es) = [92, 117] then
                   (case hex4 (take 4 (drop 6 es)) of
                      None \<Rightarrow> None
                    | Some u2 \<Rightarrow>
                        if 56320 \<le> u2 \<and> u2 \<le> 57343
                        then Some (65536 + ((u - 55296) * 1024 + (u2 - 56320)), drop 10 es)
                        else Some (u, drop 4 es))
                 else Some (u, drop 4 es))
          else
            (case backslash e of
               None \<Rightarrow> None
             | Some ch \<Rightarrow> Some (ch, es)))"

lemma scan_escape_shorter: "scan_escape cs = Some (ch, r) \<Longrightarrow> length r < length cs"
  unfolding scan_escape_def
  by (cases cs) (auto split: option.splits if_splits)

text \<open>
  \<open>scanstring\<close> reads a string literal after its opening quote and returns the decoded
  string and the text after the closing quote. A control character inside the literal
  is an error.
\<close>

function scanstring :: "pystr \<Rightarrow> (pystr \<times> pystr) option" where
  "scanstring [] = None"
| "scanstring (c # cs) =
     (if c = 34 then Some ([], cs)
      else if c = 92 then
        (case scan_escape cs of
           None \<Rightarrow> None
         | Some (ch, r) \<Rightarrow> push ch (scanstring r))
      else if c \<le> 31 then None
      else push c (scanstring cs))"
  by pat_completeness auto
termination
  by (relation "measure length") (auto dest: scan_escape_shorter)

lemma push_Some: "push c r = Some (x, rest) \<Longrightarrow> \<exists>y. r = Some (y, rest)"
  by (cases r) (auto simp: push_def)

lemma scanstring_shorter: "scanstring s = Some (x, r) \<Longrightarrow> length r < length s"
proof (induction s arbitrary: x rule: scanstring.induct)
  case 1
  then show ?case by simp
next
  case (2 c cs)
  show ?case
  proof (cases "c = 34")
    case True
    with "2.prems" show ?thesis by simp
  next
    case nq: False
    show ?thesis
    proof (cases "c = 92")
      case True
      with nq "2.prems" obtain ch t where esc: "scan_escape cs = Some (ch, t)"
        by (auto split: option.splits)
      with nq True "2.prems" obtain y where "scanstring t = Some (y, r)"
        by (auto dest: push_Some)
      with "2.IH"(1) [OF nq True esc refl] have "length r < length t" by simp
      with scan_escape_shorter [OF esc] show ?thesis by simp
    next
      case False
      with nq "2.prems" obtain y where "scanstring cs = Some (y, r)"
        by (auto split: if_splits dest: push_Some)
      with "2.IH"(2) [OF nq False] nq False "2.prems" show ?thesis
        by (fastforce split: if_splits)
    qed
  qed
qed

definition digits_value :: "pystr \<Rightarrow> int" where
  "digits_value ds = foldl (\<lambda>n c. n * 10 + (c - 48)) 0 ds"

text \<open>
  A number literal: an optional minus sign, \<open>0\<close> or a digit from 1 to 9 followed by
  digits, an optional fraction (a dot and at least one digit) and an optional exponent
  (\<open>e\<close> or \<open>E\<close>, an optional sign and at least one digit). A fraction or an exponent
  that is incomplete is left unread. Each part returns what it read and the rest.
\<close>

definition scan_sign :: "pystr \<Rightarrow> pystr \<times> pystr" where
  "scan_sign s = (case s of [] \<Rightarrow> ([], s) | c # r \<Rightarrow> if c = 45 then ([c], r) else ([], s))"

definition scan_int :: "pystr \<Rightarrow> (pystr \<times> pystr) option" where
  "scan_int s =
     (case s of
        [] \<Rightarrow> None
      | c # r \<Rightarrow>
          if \<not> is_digit c then None
          else if c = 48 then Some ([c], r)
          else Some (c # takeWhile is_digit r, dropWhile is_digit r))"

definition scan_frac :: "pystr \<Rightarrow> pystr \<times> pystr" where
  "scan_frac s =
     (case s of
        p # d # r \<Rightarrow>
          if p = 46 \<and> is_digit d then (p # d # takeWhile is_digit r, dropWhile is_digit r)
          else ([], s)
      | _ \<Rightarrow> ([], s))"

definition scan_exp :: "pystr \<Rightarrow> pystr \<times> pystr" where
  "scan_exp s =
     (case s of
        [] \<Rightarrow> ([], s)
      | e # r \<Rightarrow>
          if e = 101 \<or> e = 69 then
            (let (sg, r') = (case r of
                               [] \<Rightarrow> ([], r)
                             | g # t \<Rightarrow> if g = 43 \<or> g = 45 then ([g], t) else ([], r))
             in if takeWhile is_digit r' = [] then ([], s)
                else (e # sg @ takeWhile is_digit r', dropWhile is_digit r'))
          else ([], s))"

definition scan_number :: "pystr \<Rightarrow> (json \<times> pystr) option" where
  "scan_number s =
     (let (sign, s1) = scan_sign s
      in case scan_int s1 of
           None \<Rightarrow> None
         | Some (ip, s2) \<Rightarrow>
             let (frac, s3) = scan_frac s2;
                 (ex, s4) = scan_exp s3
             in if frac = [] \<and> ex = []
                then Some (JInt (if sign = [] then digits_value ip else - digits_value ip), s4)
                else Some (JFloat (sign @ ip @ frac @ ex), s4))"

lemma skip_ws_le: "length (skip_ws s) \<le> length s"
  by (simp add: skip_ws_def length_dropWhile_le)

text \<open>The named constants are tried before a number is read.\<close>

definition scan_constant :: "pystr \<Rightarrow> (json \<times> pystr) option" where
  "scan_constant s =
     (if prefix (str ''null'') s then Some (JNull, drop 4 s)
      else if prefix (str ''true'') s then Some (JBool True, drop 4 s)
      else if prefix (str ''false'') s then Some (JBool False, drop 5 s)
      else if prefix (str ''NaN'') s then Some (JFloat (str ''NaN''), drop 3 s)
      else if prefix (str ''Infinity'') s then Some (JFloat (str ''Infinity''), drop 8 s)
      else if prefix (str ''-Infinity'') s then Some (JFloat (str ''-Infinity''), drop 9 s)
      else scan_number s)"

text \<open>
  \<open>scan_once\<close> reads one JSON value at the start of the text and returns it with the
  text that follows. \<open>parse_object\<close> and \<open>parse_array\<close> are the loops over the members
  of an object (entered at the quote of a key) and the items of an array (entered at an
  item). A repeated key keeps its first position and takes its last value. The tests
  \<open>length s5 < length s\<close> and \<open>length s2 < length s\<close> are there for the termination
  proof; they always hold, as a value is never empty (lemma \<open>decoder_shorter\<close> below).
\<close>

function scan_once :: "pystr \<Rightarrow> (json \<times> pystr) option"
  and parse_object :: "dict \<Rightarrow> pystr \<Rightarrow> (json \<times> pystr) option"
  and parse_array :: "json list \<Rightarrow> pystr \<Rightarrow> (json \<times> pystr) option"
where
  "scan_once s =
     (case s of
        [] \<Rightarrow> None
      | c # cs \<Rightarrow>
          if c = 34 then
            (case scanstring cs of None \<Rightarrow> None | Some (x, r) \<Rightarrow> Some (JStr x, r))
          else if c = 123 then
            (case skip_ws cs of
               [] \<Rightarrow> parse_object [] []
             | d # r \<Rightarrow> if d = 125 then Some (JObj [], r) else parse_object [] (d # r))
          else if c = 91 then
            (case skip_ws cs of
               [] \<Rightarrow> parse_array [] []
             | d # r \<Rightarrow> if d = 93 then Some (JArr [], r) else parse_array [] (d # r))
          else scan_constant s)"
| "parse_object pairs s =
     (case s of
        [] \<Rightarrow> None
      | q # s1 \<Rightarrow>
          if q \<noteq> 34 then None
          else
            (case scanstring s1 of
               None \<Rightarrow> None
             | Some (key, s2) \<Rightarrow>
                 (case skip_ws s2 of
                    [] \<Rightarrow> None
                  | colon # s3 \<Rightarrow>
                      if colon \<noteq> 58 then None
                      else
                        (case scan_once (skip_ws s3) of
                           None \<Rightarrow> None
                         | Some (val, s4) \<Rightarrow>
                             (case skip_ws s4 of
                                [] \<Rightarrow> None
                              | d # s5 \<Rightarrow>
                                  if d = 125 then Some (JObj (dict_set pairs key val), s5)
                                  else if d \<noteq> 44 then None
                                  else if length s5 < length s
                                  then parse_object (dict_set pairs key val) (skip_ws s5)
                                  else None)))))"
| "parse_array items s =
     (case scan_once s of
        None \<Rightarrow> None
      | Some (val, s1) \<Rightarrow>
          (case skip_ws s1 of
             [] \<Rightarrow> None
           | d # s2 \<Rightarrow>
               if d = 93 then Some (JArr (items @ [val]), s2)
               else if d \<noteq> 44 then None
               else if length s2 < length s then parse_array (items @ [val]) (skip_ws s2)
               else None))"
  by pat_completeness auto
termination
proof (relation "measure (\<lambda>x. case x of
                            Inl s \<Rightarrow> 2 * length s
                          | Inr (Inl (pairs, s)) \<Rightarrow> 2 * length s + 1
                          | Inr (Inr (items, s)) \<Rightarrow> 2 * length s + 1)", goal_cases)
  case 1
  then show ?case by simp
next
  case (2 s c cs)
  then show ?case by simp
next
  case (3 s c cs d r)
  then show ?case using skip_ws_le [of cs] by simp
next
  case (4 s c cs)
  then show ?case by simp
next
  case (5 s c cs d r)
  then show ?case using skip_ws_le [of cs] by simp
next
  case (6 pairs s q s1 x key s2 colon s3)
  then show ?case
    using scanstring_shorter [of s1 key s2] skip_ws_le [of s2] skip_ws_le [of s3] by simp
next
  case (7 pairs s q s1 x key s2 colon s3 y val s4 d s5)
  then show ?case using skip_ws_le [of s5] by simp
next
  case (8 items s)
  then show ?case by simp
next
  case (9 items s x val s1 d s2)
  then show ?case using skip_ws_le [of s2] by simp
qed

text \<open>
  \<open>json.loads\<close> on a \<open>str\<close>: a leading byte order mark is refused, white space around
  the value is skipped, and anything else after the value is an error.
\<close>

definition json_loads :: "pystr \<Rightarrow> json option" where
  "json_loads s =
     (if prefix [65279] s then None
      else
        (case scan_once (skip_ws s) of
           None \<Rightarrow> None
         | Some (obj, r) \<Rightarrow> if skip_ws r = [] then Some obj else None))"

section \<open>The three stages\<close>

text \<open>
  Each stage fills its prompt template with one value, sends the prompt to the model and
  parses the answer. A prompt is represented by its stage and the value that fills the
  template: the user input for the classifier, the value of \<open>description\<close> for the analysis
  and the analysis (which the stage serialises with \<open>json.dumps\<close>) for the technical
  layer. The wording of the templates plays no part in what the program does with the
  answer.
\<close>

datatype prompt =
    ClassifyPrompt pystr
  | AnalyzePrompt json
  | TechLayerPrompt json

text \<open>
  The model is an oracle outside the program: its answer \<open>str(raw_output)\<close> may depend on
  the prompt and on everything that was sent before. The state threaded through the
  program holds the prompts sent so far and the files written so far (name and
  content, in the order of the writes). Console output and logging are not modelled.
\<close>

type_synonym model = "prompt list \<Rightarrow> prompt \<Rightarrow> pystr"

record world =
  calls :: "prompt list"
  writes :: "(pystr \<times> json) list"

definition invoke :: "model \<Rightarrow> prompt \<Rightarrow> world \<Rightarrow> pystr \<times> world" where
  "invoke llm p w = (llm (calls w) p, w\<lparr>calls := calls w @ [p]\<rparr>)"

text \<open>
  The replacements applied to a re-extracted candidate (no tabulator here):
  backslash-n, backslash-quote, double backslash, backslash-apostrophe.
\<close>

definition unescape :: "pystr \<Rightarrow> pystr" where
  "unescape g =
     replace [92, 39] [39] (replace [92, 92] [92] (replace [92, 34] [34] (replace [92, 110] [10] g)))"

text \<open>
  The three stages end with the same lines (\<open>cleaned = clean_text(text_output)\<close> up to the
  last \<open>return\<close>), which are modelled once: parse the cleaned text; failing that, parse
  the fenced object of the raw text; failing that, parse the first object of the raw
  text with at most one level of nesting; failing that, return the error dictionary.
\<close>

definition parse_model_output :: "pystr \<Rightarrow> json" where
  "parse_model_output text_output =
     (let cleaned = clean_text text_output
      in case json_loads cleaned of
           Some parsed_json \<Rightarrow> parsed_json
         | None \<Rightarrow>
             (case (case search_fenced text_output of
                      None \<Rightarrow> None
                    | Some g \<Rightarrow> json_loads (unescape g)) of
                Some v \<Rightarrow> v
              | None \<Rightarrow>
                  (case (case search_object text_output of
                           None \<Rightarrow> None
                         | Some g \<Rightarrow> json_loads (unescape g)) of
                     Some v \<Rightarrow> v
                   | None \<Rightarrow>
                       JObj [(str ''raw_output'', JStr cleaned),
                             (str ''error'', JStr (str ''Failed to parse JSON''))])))"

definition classify_input :: "model \<Rightarrow> pystr \<Rightarrow> world \<Rightarrow> json \<times> world" where
  "classify_input llm user_input w =
     (let (text_output, w') = invoke llm (ClassifyPrompt user_input) w
      in (parse_model_output text_output, w'))"

text \<open>\<open>d.get(k, default)\<close> on a dictionary.\<close>

definition dict_get :: "dict \<Rightarrow> pystr \<Rightarrow> json \<Rightarrow> json" where
  "dict_get d k dflt = (case map_of d k of None \<Rightarrow> dflt | Some v \<Rightarrow> v)"

definition analyze_feature :: "model \<Rightarrow> dict \<Rightarrow> world \<Rightarrow> json \<times> world" where
  "analyze_feature llm feature_input w =
     (let (text_output, w') =
            invoke llm (AnalyzePrompt (dict_get feature_input (str ''description'') (JStr []))) w
      in (parse_model_output text_output, w'))"

definition generate_tech_layer :: "model \<Rightarrow> json \<Rightarrow> world \<Rightarrow> json \<times> world" where
  "generate_tech_layer llm feature_analysis w =
     (let (text_output, w') = invoke llm (TechLayerPrompt feature_analysis) w
      in (parse_model_output text_output, w'))"

section \<open>The workflow\<close>

text \<open>
  \<open>json.loads\<close> may return any JSON value, and \<open>process_user_input\<close> applies \<open>in\<close> and
  \<open>.get\<close> to what the stages return. \<open>"error" in x\<close> is a key test on a dictionary, a
  membership test on a list and a substring test on a string, and raises \<open>TypeError\<close>
  on a number, a boolean and \<open>None\<close>. \<open>x.get\<close> raises \<open>AttributeError\<close> unless \<open>x\<close>
  is a dictionary. \<open>UnicodeEncodeError\<close> is raised by \<open>print\<close> in the
  command-line loop.
\<close>

datatype py_error = TypeError | AttributeError | UnicodeEncodeError

fun py_in :: "pystr \<Rightarrow> json \<Rightarrow> py_error + bool" where
  "py_in k (JObj d) = Inr (k \<in> set (map fst d))"
| "py_in k (JArr xs) = Inr (JStr k \<in> set xs)"
| "py_in k (JStr s) = Inr (sublist k s)"
| "py_in k _ = Inl TypeError"

fun py_get :: "json \<Rightarrow> pystr \<Rightarrow> json \<Rightarrow> py_error + json" where
  "py_get (JObj d) k dflt = Inr (dict_get d k dflt)"
| "py_get _ k dflt = Inl AttributeError"

definition process_user_input :: "model \<Rightarrow> pystr \<Rightarrow> world \<Rightarrow> (py_error + json) \<times> world" where
  "process_user_input llm user_input w =
     (let (classification_result, w1) = classify_input llm user_input w
      in case py_in (str ''error'') classification_result of
           Inl e \<Rightarrow> (Inl e, w1)
         | Inr True \<Rightarrow>
             (Inr (JObj [(str ''error'', JStr (str ''Classification failed'')),
                         (str ''details'', classification_result)]), w1)
         | Inr False \<Rightarrow>
             (case py_get classification_result (str ''classification'') (JStr []) of
                Inl e \<Rightarrow> (Inl e, w1)
              | Inr classification \<Rightarrow>
                  if classification = JStr (str ''General Conversation'') then
                    (Inr (JObj [(str ''workflow'', JStr (str ''general_conversation'')),
                                (str ''classification'', classification),
                                (str ''result'', classification_result)]), w1)
                  else if classification = JStr (str ''Feature Description'') then
                    (let feature_input = [(str ''description'', JStr user_input)];
                         (feature_analysis, w2) = analyze_feature llm feature_input w1
                     in case py_in (str ''error'') feature_analysis of
                          Inl e \<Rightarrow> (Inl e, w2)
                        | Inr True \<Rightarrow>
                            (Inr (JObj [(str ''error'', JStr (str ''Feature analysis failed'')),
                                        (str ''details'', feature_analysis)]), w2)
                        | Inr False \<Rightarrow>
                            (let (tech_layer_result, w3) =
                                   generate_tech_layer llm feature_analysis w2
                             in case py_in (str ''error'') tech_layer_result of
                                  Inl e \<Rightarrow> (Inl e, w3)
                                | Inr True \<Rightarrow>
                                    (Inr (JObj [(str ''error'', JStr (str ''Tech layer failed'')),
                                                (str ''details'', tech_layer_result)]), w3)
                                | Inr False \<Rightarrow>
                                    (Inr (JObj [(str ''workflow'', JStr (str ''feature_processing'')),
                                                (str ''classification'', classification),
                                                (str ''feature_analysis'', feature_analysis),
                                                (str ''tech_layer_result'', tech_layer_result)]),
                                     w3)))
                  else
                    (Inr (JObj [(str ''error'', JStr (str ''Unknown classification'')),
                                (str ''classification'', classification)]), w1)))"
section \<open>The command-line loop\<close>

text \<open>
  The loop reads from the console with \<open>input()\<close>. Each call either returns a line or
  raises \<open>EOFError\<close> or \<open>KeyboardInterrupt\<close>; a run of the program is driven by the list
  of these events. When the list is used up the program is waiting for input, and the
  run so far is returned.
\<close>

datatype console_event = Line pystr | Eof | Interrupt

text \<open>The variables of the loop: \<open>results\<close>, \<open>test_count\<close> and the state outside.\<close>

record cli =
  results :: "json list"
  test_count :: nat
  env :: world

text \<open>
  \<open>s.lower()\<close> is only compared with the words \<open>quit\<close>, \<open>exit\<close>, \<open>q\<close>, \<open>y\<close> and \<open>yes\<close>. It
  is modelled on the letters A to Z: no other code point is lower-cased to a letter
  of these words.
\<close>

definition lower :: "pystr \<Rightarrow> pystr" where
  "lower s = map (\<lambda>c. if 65 \<le> c \<and> c \<le> 90 then c + 32 else c) s"

text \<open>The decimal digits of \<open>test_count\<close> in the file name.\<close>

function str_of_nat :: "nat \<Rightarrow> pystr" where
  "str_of_nat n =
     (if n < 10 then [48 + int n] else str_of_nat (n div 10) @ [48 + int (n mod 10)])"
  by pat_completeness auto
termination
  by (relation "measure id") auto

text \<open>
  \<open>open(name, 'w')\<close> followed by \<open>json.dump\<close>: the write is recorded with the value that is
  dumped, not with its serialisation. When a string of the value holds a lone
  surrogate, \<open>json.dump\<close> raises \<open>UnicodeEncodeError\<close> after the file has been opened: the
  file is there, with a part of the serialisation. In the loop this exception is caught
  after the last change of the state of a pass, and after the loop it ends the program,
  so the files written are the same.
\<close>

definition write_file :: "pystr \<Rightarrow> json \<Rightarrow> world \<Rightarrow> world" where
  "write_file name content w = w\<lparr>writes := writes w @ [(name, content)]\<rparr>"

definition result_filename :: "nat \<Rightarrow> pystr" where
  "result_filename n = str ''workflow_result_'' @ str_of_nat n @ str ''.json''"

definition summary_filename :: pystr where
  "summary_filename = str ''all_workflow_results.json''"

text \<open>
  \<open>print\<close> raises \<open>UnicodeEncodeError\<close> when the console cannot encode a character of
  the text, which depends on the encoding of the console and on its error handler. The
  console is therefore a parameter of the loop: it tells, for a value, whether the line
  of the program that shows this value can be written. The lines that show no value
  are taken to be written, as the banner printed before the loop must be. A string is
  shown as it is, and the strings inside a list or a dictionary are shown with
  \<open>repr\<close>, which escapes the surrogates: a strict UTF-8 console writes every line but
  those showing a string with a surrogate in it.
\<close>

type_synonym console = "json \<Rightarrow> bool"

fun utf8_strict :: console where
  "utf8_strict (JStr s) = (\<not> list_ex (\<lambda>c. 55296 \<le> c \<and> c \<le> 57343) s)"
| "utf8_strict _ = True"

definition print_value :: "console \<Rightarrow> json \<Rightarrow> py_error + unit" where
  "print_value con v = (if con v then Inr () else Inl UnicodeEncodeError)"

text \<open>Statements in sequence: the first exception ends the sequence.\<close>

fun and_then :: "py_error + 'a \<Rightarrow> ('a \<Rightarrow> py_error + 'b) \<Rightarrow> py_error + 'b" where
  "and_then (Inl e) f = Inl e"
| "and_then (Inr x) f = f x"

fun py_keys :: "json \<Rightarrow> py_error + pystr list" where
  "py_keys (JObj d) = Inr (map fst d)"
| "py_keys _ = Inl AttributeError"

text \<open>\<open>print(f"... {list(x.keys())}")\<close>.\<close>

definition print_keys :: "console \<Rightarrow> json \<Rightarrow> py_error + unit" where
  "print_keys con x = and_then (py_keys x) (\<lambda>ks. print_value con (JArr (map JStr ks)))"

text \<open>
  The lines that print the result, from \<open>RESULTS\<close> to the keys of the result. What is
  printed is not modelled, but every call that can raise is: \<open>.get\<close> and \<open>.keys\<close> raise
  \<open>AttributeError\<close> unless they are applied to a dictionary, \<open>in\<close> may raise
  \<open>TypeError\<close>, and \<open>print\<close> may raise \<open>UnicodeEncodeError\<close>.
\<close>

definition display :: "console \<Rightarrow> json \<Rightarrow> py_error + unit" where
  "display con result =
     and_then (py_get result (str ''workflow'') (JStr (str ''Error''))) (\<lambda>workflow.
     and_then (print_value con workflow) (\<lambda>_.
     and_then (py_get result (str ''classification'') (JStr (str ''Error''))) (\<lambda>classification.
     and_then (print_value con classification) (\<lambda>_.
     and_then (py_get result (str ''workflow'') JNull) (\<lambda>workflow.
     and_then
       (if workflow = JStr (str ''feature_processing'') then
          and_then (py_get result (str ''feature_analysis'') (JObj [])) (\<lambda>fa.
          and_then (print_keys con fa) (\<lambda>_.
          and_then (py_get result (str ''tech_layer_result'') (JObj [])) (\<lambda>tr.
          print_keys con tr)))
        else Inr ()) (\<lambda>_.
     and_then (py_in (str ''error'') result) (\<lambda>failed.
     and_then
       (if failed then
          and_then (py_get result (str ''error'') JNull) (\<lambda>err. print_value con err)
        else Inr ()) (\<lambda>_.
     print_keys con result))))))))"

text \<open>
  One pass of \<open>while True\<close> per equation. \<open>KeyboardInterrupt\<close> and the words \<open>quit\<close>,
  \<open>exit\<close> and \<open>q\<close> leave the loop (second component \<open>True\<close>); every other exception
  is caught by \<open>except Exception\<close> and the loop continues with what was changed before
  the exception. The user input is printed after \<open>test_count\<close> is increased and before
  the workflow runs. The second \<open>input()\<close> of a pass asks whether to save the result.
\<close>

fun main_loop :: "model \<Rightarrow> console \<Rightarrow> console_event list \<Rightarrow> cli \<Rightarrow> cli \<times> bool" where
  "main_loop llm con [] st = (st, False)"
| "main_loop llm con (Interrupt # evs) st = (st, True)"
| "main_loop llm con (Eof # evs) st = main_loop llm con evs st"
| "main_loop llm con (Line l # evs) st =
     (let user_input = strip l
      in if lower user_input \<in> set [str ''quit'', str ''exit'', str ''q''] then (st, True)
         else if user_input = [] then main_loop llm con evs st
         else
           let st1 = st\<lparr>test_count := test_count st + 1\<rparr>
           in if \<not> con (JStr user_input) then main_loop llm con evs st1
              else
                let (r, w') = process_user_input llm user_input (env st1);
                    st2 = st1\<lparr>env := w'\<rparr>
                in case r of
                     Inl e \<Rightarrow> main_loop llm con evs st2
                   | Inr result \<Rightarrow>
                       let st3 = st2\<lparr>results := results st2 @
                                        [JObj [(str ''input'', JStr user_input),
                                               (str ''result'', result)]]\<rparr>
                       in case display con result of
                            Inl e \<Rightarrow> main_loop llm con evs st3
                          | Inr u \<Rightarrow>
                              (case evs of
                                 [] \<Rightarrow> (st3, False)
                               | Interrupt # evs' \<Rightarrow> (st3, True)
                               | Eof # evs' \<Rightarrow> main_loop llm con evs' st3
                               | Line a # evs' \<Rightarrow>
                                   if lower (strip a) \<in> set [str ''y'', str ''yes'']
                                   then main_loop llm con evs'
                                          (st3\<lparr>env := write_file
                                                         (result_filename (test_count st3))
                                                         result (env st3)\<rparr>)
                                   else main_loop llm con evs' st3))"

text \<open>The program: the loop, then the summary file if the loop was left with results.\<close>

definition main :: "model \<Rightarrow> console \<Rightarrow> console_event list \<Rightarrow> world \<Rightarrow> world" where
  "main llm con evs w =
     (let (st, stopped) = main_loop llm con evs \<lparr>results = [], test_count = 0, env = w\<rparr>
      in if stopped \<and> results st \<noteq> []
         then write_file summary_filename (JArr (results st)) (env st)
         else env st)"

section \<open>The cleaning steps as the specification words them\<close>

text \<open>
  The definitions of this section follow the description of \<open>clean_text\<close> in the
  specification, not the source: they scan the text directly, without a regular
  expression. \<open>closes s\<close> holds when \<open>s\<close> is optional white space followed by the closing
  fence. \<open>shortest_body\<close> is the shortest text that ends with a closing brace in front
  of a closing fence. \<open>find_fenced\<close> is the JSON object of the first fenced block: the
  opening fence, optional white space, an opening brace and the shortest body.
\<close>

definition closes :: "pystr \<Rightarrow> bool" where
  "closes s \<longleftrightarrow> prefix (str ''```'') (dropWhile is_space s)"

fun shortest_body :: "pystr \<Rightarrow> pystr option" where
  "shortest_body [] = None"
| "shortest_body (c # cs) =
     (if c = 125 \<and> closes cs then Some [c] else map_option (Cons c) (shortest_body cs))"

definition fenced_at :: "pystr \<Rightarrow> pystr option" where
  "fenced_at s =
     (if prefix (str ''```json'') s then
        (case dropWhile is_space (drop 7 s) of
           [] \<Rightarrow> None
         | c # r \<Rightarrow> if c = 123 then map_option (Cons c) (shortest_body r) else None)
      else None)"

fun find_fenced :: "pystr \<Rightarrow> pystr option" where
  "find_fenced [] = None"
| "find_fenced (c # cs) =
     (case fenced_at (c # cs) of Some g \<Rightarrow> Some g | None \<Rightarrow> find_fenced cs)"

text \<open>The span from the first opening brace to the last closing brace after it.\<close>

fun up_to_last :: "pystr \<Rightarrow> pystr" where
  "up_to_last [] = []"
| "up_to_last (x # xs) = (if 125 \<in> set xs then x # up_to_last xs else if x = 125 then [x] else [])"

definition brace_span :: "pystr \<Rightarrow> pystr option" where
  "brace_span t =
     (case dropWhile (\<lambda>c. c \<noteq> 123) t of
        [] \<Rightarrow> None
      | c # r \<Rightarrow> if 125 \<in> set r then Some (c # up_to_last r) else None)"

text \<open>
  The sequence of the specification: the fenced object if there is one; otherwise the
  fence markers are deleted and the brace span is kept if there is one; then the text is
  stripped; then the five replacements are made in the stated order.
\<close>

definition clean_text_spec :: "pystr \<Rightarrow> pystr" where
  "clean_text_spec text =
     (let text1 =
            (case find_fenced text of
               Some g \<Rightarrow> g
             | None \<Rightarrow>
                 (let t = replace (str ''```'') [] (replace (str ''```json'') [] text)
                  in case brace_span t of Some g \<Rightarrow> g | None \<Rightarrow> t))
      in replace [92, 39] [39]
           (replace [92, 92] [92]
             (replace [92, 34] [34]
               (replace [92, 116] [9]
                 (replace [92, 110] [10] (strip text1))))))"

section \<open>Notions used in the statements\<close>

text \<open>\<open>has_key k v\<close>: the value is a dictionary with the key \<open>k\<close>.\<close>

definition has_key :: "pystr \<Rightarrow> json \<Rightarrow> bool" where
  "has_key k v = (case v of JObj d \<Rightarrow> k \<in> fst ` set d | _ \<Rightarrow> False)"

text \<open>
  A response that consists of a text wrapped in a markdown fence: the opening fence,
  white space, the text, white space, the closing fence.
\<close>

definition fenced :: "pystr \<Rightarrow> pystr \<Rightarrow> pystr \<Rightarrow> pystr" where
  "fenced ws1 s ws2 = str ''```json'' @ ws1 @ s @ ws2 @ str ''```''"

text \<open>
  \<open>brace_then_fence s\<close>: somewhere in \<open>s\<close> a closing brace is followed, after optional
  white space, by three backticks.
\<close>

fun brace_then_fence :: "pystr \<Rightarrow> bool" where
  "brace_then_fence [] = False"
| "brace_then_fence (c # cs) = ((c = 125 \<and> closes cs) \<or> brace_then_fence cs)"

text \<open>
  \<open>only_result_files w w'\<close>: from \<open>w\<close> to \<open>w'\<close> files were only added, each one named
  \<open>workflow_result_k.json\<close> for some \<open>k\<close>.
\<close>

definition only_result_files :: "world \<Rightarrow> world \<Rightarrow> bool" where
  "only_result_files w w' \<longleftrightarrow>
     (\<exists>ws. writes w' = writes w @ ws \<and> (\<forall>(name, content)\<in>set ws. \<exists>k. name = result_filename k))"

text \<open>
  A mocked model that answers each stage with a fixed text, the state before the first
  call, and the two answers of a well-behaved classifier.
\<close>

fun scripted :: "pystr \<Rightarrow> pystr \<Rightarrow> pystr \<Rightarrow> model" where
  "scripted a b c h (ClassifyPrompt x) = a"
| "scripted a b c h (AnalyzePrompt x) = b"
| "scripted a b c h (TechLayerPrompt x) = c"

definition fresh :: world where
  "fresh = \<lparr>calls = [], writes = []\<rparr>"

definition general_answer :: pystr where
  "general_answer = str ''{\"classification\": \"General Conversation\"}''"

definition feature_answer :: pystr where
  "feature_answer = str ''{\"classification\": \"Feature Description\"}''"

text \<open>An answer whose classification is a string holding a lone surrogate.\<close>

definition surrogate_answer :: pystr where
  "surrogate_answer = str ''{\"classification\": \"'' @ [92] @ str ''ud800\"}''"

section \<open>The matcher on the patterns of the program\<close>

text \<open>
  The remainders that a greedy and a lazy star over a class of characters leave, the
  remainders after each closing brace of a text, and the first element of a list.
\<close>

fun greedy :: "(int \<Rightarrow> bool) \<Rightarrow> pystr \<Rightarrow> pystr list" where
  "greedy P [] = [[]]"
| "greedy P (x # xs) = (if P x then greedy P xs @ [x # xs] else [x # xs])"

fun lazy :: "(int \<Rightarrow> bool) \<Rightarrow> pystr \<Rightarrow> pystr list" where
  "lazy P [] = [[]]"
| "lazy P (x # xs) = (x # xs) # (if P x then lazy P xs else [])"

fun closers :: "pystr \<Rightarrow> pystr list" where
  "closers [] = []"
| "closers (x # xs) = (if x = 125 then [xs] else []) @ closers xs"

definition headopt :: "'a list \<Rightarrow> 'a option" where
  "headopt l = (case l of [] \<Rightarrow> None | g # _ \<Rightarrow> Some g)"

text \<open>
  The lexical structure of a JSON text: \<open>lexrun\<close> runs over a text and keeps whether
  it is inside a string literal. It fails on a backslash outside a string and, inside
  a string, on a control character and on a backslash that does not start an escape.
  \<open>reads s r\<close>: \<open>r\<close> is what is left of \<open>s\<close> after a part that starts and ends outside a
  string.
\<close>

fun lexrun :: "bool \<Rightarrow> pystr \<Rightarrow> bool option" where
  "lexrun st [] = Some st"
| "lexrun False (c # cs) =
     (if c = 92 then None else if c = 34 then lexrun True cs else lexrun False cs)"
| "lexrun True (c # cs) =
     (if c = 34 then lexrun False cs
      else if c = 92 then
        (case cs of
           [] \<Rightarrow> None
         | e # es \<Rightarrow> if e = 117 \<or> backslash e \<noteq> None then lexrun True es else None)
      else if c \<le> 31 then None
      else lexrun True cs)"

definition reads :: "pystr \<Rightarrow> pystr \<Rightarrow> bool" where
  "reads s r \<longleftrightarrow> (\<exists>p. s = p @ r \<and> lexrun False p = Some False)"

section \<open>Lemmas\<close>

text \<open>
  The decoder consumes text: what is left after a value is shorter than what the value
  was read from. So the two tests on the length in \<open>parse_object\<close> and \<open>parse_array\<close>
  never fail.
\<close>

lemma scan_sign_le: "scan_sign s = (sg, r) \<Longrightarrow> length r \<le> length s"
  by (auto simp: scan_sign_def split: list.splits if_splits)

lemma scan_int_shorter: "scan_int s = Some (ip, r) \<Longrightarrow> length r < length s"
  using length_dropWhile_le [of is_digit "tl s"]
  by (auto simp: scan_int_def split: list.splits if_splits)

lemma scan_frac_le: "scan_frac s = (f, r) \<Longrightarrow> length r \<le> length s"
proof (cases s)
  case Nil
  then show "scan_frac s = (f, r) \<Longrightarrow> length r \<le> length s"
    by (simp add: scan_frac_def)
next
  case (Cons p t)
  assume a: "scan_frac s = (f, r)"
  show "length r \<le> length s"
  proof (cases t)
    case Nil
    with Cons a show ?thesis by (simp add: scan_frac_def)
  next
    case (Cons d u)
    with \<open>s = p # t\<close> a length_dropWhile_le [of is_digit u] show ?thesis
      by (auto simp: scan_frac_def split: if_splits)
  qed
qed

lemma scan_exp_le: "scan_exp s = (e, r) \<Longrightarrow> length r \<le> length s"
proof (cases s)
  case Nil
  then show "scan_exp s = (e, r) \<Longrightarrow> length r \<le> length s"
    by (simp add: scan_exp_def)
next
  case (Cons c t)
  assume a: "scan_exp s = (e, r)"
  obtain sg r' where r': "(case t of [] \<Rightarrow> ([], t)
                           | g # u \<Rightarrow> if g = 43 \<or> g = 45 then ([g], u) else ([], t)) = (sg, r')"
    by force
  then have "length r' \<le> length t"
    by (auto split: list.splits if_splits)
  with Cons a r' length_dropWhile_le [of is_digit r'] show "length r \<le> length s"
    by (auto simp: scan_exp_def Let_def split: if_splits)
qed

lemma scan_number_shorter: "scan_number s = Some (v, r) \<Longrightarrow> length r < length s"
proof -
  assume a: "scan_number s = Some (v, r)"
  obtain sg s1 where s1: "scan_sign s = (sg, s1)" by force
  with a obtain ip s2 where s2: "scan_int s1 = Some (ip, s2)"
    by (auto simp: scan_number_def split: option.splits)
  obtain f s3 where s3: "scan_frac s2 = (f, s3)" by force
  obtain e s4 where s4: "scan_exp s3 = (e, s4)" by force
  from a s1 s2 s3 s4 have "r = s4"
    by (auto simp: scan_number_def split: if_splits)
  with scan_sign_le [OF s1] scan_int_shorter [OF s2] scan_frac_le [OF s3] scan_exp_le [OF s4]
  show ?thesis by simp
qed

lemma scan_constant_shorter: "scan_constant s = Some (v, r) \<Longrightarrow> length r < length s"
  unfolding scan_constant_def
  by (auto simp: str_def prefix_def split: if_splits dest: scan_number_shorter)

declare scan_once.simps [simp del] parse_object.simps [simp del] parse_array.simps [simp del]

lemma decoder_shorter:
  "(scan_once s = Some (v, r) \<longrightarrow> length r < length s) \<and>
   (parse_object pairs s = Some (v, r) \<longrightarrow> length r < length s) \<and>
   (parse_array items s = Some (v, r) \<longrightarrow> length r < length s)"
proof (induction s arbitrary: v r pairs items rule: length_induct)
  case (1 s)
  have IH_once: "\<And>t v r. length t < length s \<Longrightarrow> scan_once t = Some (v, r) \<Longrightarrow> length r < length t"
    and IH_obj: "\<And>t p v r. length t < length s \<Longrightarrow> parse_object p t = Some (v, r) \<Longrightarrow> length r < length t"
    and IH_arr: "\<And>t i v r. length t < length s \<Longrightarrow> parse_array i t = Some (v, r) \<Longrightarrow> length r < length t"
    using "1.IH" by blast+
  have once: "length r < length s" if a: "scan_once s = Some (v, r)" for v r
  proof (cases s)
    case Nil
    with a show ?thesis by (simp add: scan_once.simps)
  next
    case (Cons c cs)
    have ws: "length (skip_ws cs) \<le> length cs" by (rule skip_ws_le)
    consider (str) "c = 34" | (obj) "c \<noteq> 34" "c = 123" | (arr) "c \<noteq> 34" "c \<noteq> 123" "c = 91"
      | (const) "c \<noteq> 34" "c \<noteq> 123" "c \<noteq> 91" by blast
    then show ?thesis
    proof cases
      case str
      with a Cons obtain x where "scanstring cs = Some (x, r)"
        by (auto simp: scan_once.simps split: option.splits)
      from scanstring_shorter [OF this] Cons show ?thesis by simp
    next
      case obj
      show ?thesis
      proof (cases "skip_ws cs")
        case Nil
        with a Cons obj show ?thesis by (simp add: scan_once.simps parse_object.simps)
      next
        case inner: (Cons d r0)
        show ?thesis
        proof (cases "d = 125")
          case True
          with a Cons obj inner have "r = r0" by (simp add: scan_once.simps)
          with inner ws Cons show ?thesis by simp
        next
          case False
          with a Cons obj inner have "parse_object [] (d # r0) = Some (v, r)"
            by (simp add: scan_once.simps)
          from IH_obj [OF _ this] inner ws Cons show ?thesis by simp
        qed
      qed
    next
      case arr
      show ?thesis
      proof (cases "skip_ws cs")
        case Nil
        with a Cons arr show ?thesis
          by (simp add: scan_once.simps parse_array.simps [of _ "[]"])
      next
        case inner: (Cons d r0)
        show ?thesis
        proof (cases "d = 93")
          case True
          with a Cons arr inner have "r = r0" by (simp add: scan_once.simps)
          with inner ws Cons show ?thesis by simp
        next
          case False
          with a Cons arr inner have "parse_array [] (d # r0) = Some (v, r)"
            by (simp add: scan_once.simps)
          from IH_arr [OF _ this] inner ws Cons show ?thesis by simp
        qed
      qed
    next
      case const
      with a Cons have "scan_constant s = Some (v, r)" by (simp add: scan_once.simps)
      then show ?thesis by (rule scan_constant_shorter)
    qed
  qed
  have obj: "length r < length s" if a: "parse_object pairs s = Some (v, r)" for pairs v r
  proof -
    from a obtain s1 where s: "s = 34 # s1"
      by (cases s) (auto simp: parse_object.simps split: if_splits)
    from a s obtain key s2 where key: "scanstring s1 = Some (key, s2)"
      by (auto simp: parse_object.simps split: option.splits)
    from a s key obtain s3 where colon: "skip_ws s2 = 58 # s3"
      by (cases "skip_ws s2") (auto simp: parse_object.simps split: if_splits)
    from a s key colon obtain val s4 where val: "scan_once (skip_ws s3) = Some (val, s4)"
      by (auto simp: parse_object.simps split: option.splits)
    from a s key colon val obtain d s5 where d: "skip_ws s4 = d # s5"
      by (cases "skip_ws s4") (auto simp: parse_object.simps)
    have l2: "length s2 < length s1" by (rule scanstring_shorter [OF key])
    have l3: "length s3 < length s2" using colon skip_ws_le [of s2] by simp
    have l3': "length (skip_ws s3) < length s" using l2 l3 s skip_ws_le [of s3] by simp
    have l4: "length s4 < length (skip_ws s3)" by (rule IH_once [OF l3' val])
    have l5: "length s5 < length s4" using d skip_ws_le [of s4] by simp
    have total: "length s5 < length s" using l3' l4 l5 by simp
    show ?thesis
    proof (cases "d = 125")
      case True
      with a s key colon val d have "r = s5" by (simp add: parse_object.simps)
      with total show ?thesis by simp
    next
      case False
      with a s key colon val d total
      have "parse_object (dict_set pairs key val) (skip_ws s5) = Some (v, r)"
        by (simp add: parse_object.simps split: if_splits)
      moreover have "length (skip_ws s5) < length s" using total skip_ws_le [of s5] by simp
      ultimately have "length r < length (skip_ws s5)" using IH_obj by blast
      with \<open>length (skip_ws s5) < length s\<close> show ?thesis by simp
    qed
  qed
  have arr: "length r < length s" if a: "parse_array items s = Some (v, r)" for items v r
  proof -
    from a obtain val s1 where val: "scan_once s = Some (val, s1)"
      by (auto simp: parse_array.simps [of _ s] split: option.splits)
    from a val obtain d s2 where d: "skip_ws s1 = d # s2"
      by (cases "skip_ws s1") (auto simp: parse_array.simps [of _ s])
    have l1: "length s1 < length s" by (rule once [OF val])
    have l2: "length s2 < length s" using d skip_ws_le [of s1] l1 by simp
    show ?thesis
    proof (cases "d = 93")
      case True
      with a val d have "r = s2" by (simp add: parse_array.simps [of _ s])
      with l2 show ?thesis by simp
    next
      case False
      with a val d l2 have "parse_array (items @ [val]) (skip_ws s2) = Some (v, r)"
        by (simp add: parse_array.simps [of _ s] split: if_splits)
      moreover have "length (skip_ws s2) < length s" using l2 skip_ws_le [of s2] by simp
      ultimately have "length r < length (skip_ws s2)" using IH_arr by blast
      with \<open>length (skip_ws s2) < length s\<close> show ?thesis by simp
    qed
  qed
  from once obj arr show ?case by blast
qed

lemma headopt_simps [simp]: "headopt [] = None" "headopt (x # xs) = Some x"
  by (simp_all add: headopt_def)

lemma headopt_append: "headopt (a @ b) = (case headopt a of Some y \<Rightarrow> Some y | None \<Rightarrow> headopt b)"
  by (cases a) simp_all

declare paths.simps [simp del]

lemma paths_Cat: "paths (Cat a b) s = concat (map (paths b) (paths a s))"
  by (simp add: paths.simps)

lemma paths_Lit: "paths (Lit c) s = (case s of [] \<Rightarrow> [] | x # xs \<Rightarrow> if x = c then [xs] else [])"
  by (simp add: paths.simps)

lemma paths_Eps: "paths Eps s = [s]"
  by (simp add: paths.simps)

lemma paths_Lits: "paths (Lits l) s = (if prefix l s then [drop (length l) s] else [])"
  by (induction l arbitrary: s) (auto simp: paths.simps split: list.splits)

lemma paths_Star_Space: "paths (Star Space) s = greedy is_space s"
  by (induction s) (auto simp: paths.simps)

lemma paths_Star_Dot: "paths (Star Dot) s = greedy (\<lambda>c. True) s"
  by (induction s) (auto simp: paths.simps)

lemma paths_LazyStar_Dot: "paths (LazyStar Dot) s = lazy (\<lambda>c. True) s"
  by (induction s) (auto simp: paths.simps)

lemma lazy_closers: "concat (map (paths (Lit 125)) (lazy (\<lambda>c. True) r)) = closers r"
  by (induction r) (auto simp: paths_Lit)

lemma greedy_closers: "concat (map (paths (Lit 125)) (greedy (\<lambda>c. True) r)) = rev (closers r)"
  by (induction r) (auto simp: paths_Lit)

lemma match_at_headopt:
  "match_at pre grp post s =
     headopt (concat (map (\<lambda>s1. concat (map (\<lambda>s2. map (\<lambda>s3. take (length s1 - length s2) s1)
                                                  (paths post s2))
                                        (paths grp s1)))
                       (paths pre s)))"
  by (simp add: match_at_def headopt_def)

lemma str_fence: "str ''```'' = [96, 96, 96]" "str ''```json'' = [96, 96, 96, 106, 115, 111, 110]"
  by (simp_all add: str_def)

lemma space_facts [simp]: "\<not> is_space 96" "\<not> is_space 123" "\<not> is_space 125"  "is_space 10"
  by (simp_all add: is_space_def)

lemma post_nonempty:
  "(paths (Cat (Star Space) (Lits (str ''```''))) s \<noteq> []) = closes s"
proof -
  have "(concat (map (paths (Lits [96, 96, 96])) (greedy is_space s)) \<noteq> [])
          = prefix [96, 96, 96] (dropWhile is_space s)"
  proof (induction s)
    case Nil
    then show ?case by (simp add: paths_Lits del: Lits.simps)
  next
    case (Cons x xs)
    then show ?case
      by (cases "x = 96") (auto simp: paths_Lits simp del: Lits.simps)
  qed
  then show ?thesis
    by (simp add: closes_def str_fence paths_Cat paths_Star_Space del: Lits.simps)
qed

lemma grp_lazy:
  "paths (Cat (Lit 123) (Cat (LazyStar Dot) (Lit 125))) s =
     (case s of [] \<Rightarrow> [] | c # r \<Rightarrow> if c = 123 then closers r else [])"
  by (cases s) (simp_all add: paths_Cat paths_Lit paths_LazyStar_Dot lazy_closers)

lemma grp_greedy:
  "paths (Cat (Lit 123) (Cat (Star Dot) (Lit 125))) s =
     (case s of [] \<Rightarrow> [] | c # r \<Rightarrow> if c = 123 then rev (closers r) else [])"
  by (cases s) (simp_all add: paths_Cat paths_Lit paths_Star_Dot greedy_closers)

lemma pre_paths:
  "paths (Cat (Lits (str ''```json'')) (Star Space)) s =
     (if prefix (str ''```json'') s then greedy is_space (drop 7 s) else [])"
proof -
  have "paths (Cat (Lits (str ''```json'')) (Star Space)) s =
          concat (map (paths (Star Space)) (paths (Lits (str ''```json'')) s))"
    by (simp only: paths_Cat)
  also have "\<dots> = (if prefix (str ''```json'') s
                     then greedy is_space (drop (length (str ''```json'')) s) else [])"
    by (simp add: paths_Lits paths_Star_Space)
  also have "length (str ''```json'') = 7"
    by (simp add: str_def)
  finally show ?thesis .
qed

lemma greedy_first:
  assumes "\<And>u. u \<noteq> [] \<Longrightarrow> is_space (hd u) \<Longrightarrow> F u = []"
  shows "headopt (concat (map F (greedy is_space t))) = headopt (F (dropWhile is_space t))"
proof (induction t)
  case Nil
  then show ?case by simp
next
  case (Cons x xs)
  show ?case
  proof (cases "is_space x")
    case True
    then have "F (x # xs) = []" using assms [of "x # xs"] by simp
    with True Cons show ?thesis by (simp add: headopt_append split: option.splits)
  next
    case False
    then show ?thesis by simp
  qed
qed

lemma inner_fenced:
  assumes post: "\<And>s. (Q s \<noteq> []) = closes s"
  shows "W = p @ r \<Longrightarrow>
         headopt (concat (map (\<lambda>s2. map (\<lambda>s3. take (length W - length s2) W) (Q s2))
                         (closers r)))
         = map_option ((@) p) (shortest_body r)"
proof (induction r arbitrary: p)
  case Nil
  then show ?case by simp
next
  case (Cons x xs)
  have IH: "headopt (concat (map (\<lambda>s2. map (\<lambda>s3. take (length W - length s2) W) (Q s2))
                         (closers xs)))
            = map_option ((@) (p @ [x])) (shortest_body xs)"
  proof -
    have "W = (p @ [x]) @ xs" using Cons.prems by simp
    from Cons.IH [OF this] show ?thesis .
  qed
  have expand: "map_option ((@) (p @ [x])) (shortest_body xs) =
        map_option ((@) p) (map_option ((#) x) (shortest_body xs))"
    by (cases "shortest_body xs") simp_all
  have first: "take (length W - length xs) W = p @ [x]"
    using Cons.prems by simp
  show ?case
  proof (cases "x = 125 \<and> closes xs")
    case True
    then obtain y ys where "Q xs = y # ys"
      using post [of xs] by (auto simp: neq_Nil_conv)
    with True first show ?thesis by simp
  next
    case False
    then have "x = 125 \<Longrightarrow> Q xs = []"
      using post [of xs] by auto
    with False IH expand show ?thesis by auto
  qed
qed

lemma match_at_fenced_gen:
  assumes pre: "\<And>s. paths pre s = (if prefix (str ''```json'') s then greedy is_space (drop 7 s) else [])"
    and grp: "\<And>s. paths grp s = (case s of [] \<Rightarrow> [] | c # r \<Rightarrow> if c = 123 then closers r else [])"
    and post: "\<And>s. (paths post s \<noteq> []) = closes s"
  shows "match_at pre grp post s = fenced_at s"
proof (cases "prefix (str ''```json'') s")
  case False
  then show ?thesis
    by (simp add: match_at_headopt pre fenced_at_def)
next
  case True
  let ?F = "\<lambda>s1. concat (map (\<lambda>s2. map (\<lambda>s3. take (length s1 - length s2) s1) (paths post s2))
                          (paths grp s1))"
  have F0: "\<And>u. u \<noteq> [] \<Longrightarrow> is_space (hd u) \<Longrightarrow> ?F u = []"
  proof -
    fix u :: pystr assume "u \<noteq> []" "is_space (hd u)"
    then have "paths grp u = []"
      by (cases u) (auto simp: grp)
    then show "?F u = []" by simp
  qed
  have inner_at: "headopt (?F d) =
      (case d of [] \<Rightarrow> None
       | c # r \<Rightarrow> if c = 123 then map_option ((#) c) (shortest_body r) else None)" for d
  proof (cases d)
    case Nil
    then show ?thesis by (simp add: grp)
  next
    case (Cons c r)
    show ?thesis
    proof (cases "c = 123")
      case False
      with Cons show ?thesis by (simp add: grp)
    next
      case c: True
      have "headopt (?F (c # r)) = map_option ((@) [c]) (shortest_body r)"
        using inner_fenced [of "paths post" "c # r" "[c]" r, OF post] c by (simp add: grp)
      also have "\<dots> = map_option ((#) c) (shortest_body r)"
        by (cases "shortest_body r") simp_all
      finally show ?thesis using Cons c by simp
    qed
  qed
  have "match_at pre grp post s = headopt (concat (map ?F (greedy is_space (drop 7 s))))"
    using True by (simp add: match_at_headopt pre)
  also have "\<dots> = headopt (?F (dropWhile is_space (drop 7 s)))"
    by (rule greedy_first [of ?F, OF F0])
  also have "\<dots> = fenced_at s"
    using True inner_at [of "dropWhile is_space (drop 7 s)"]
    by (simp only: fenced_at_def if_True)
  finally show ?thesis .
qed

lemmas match_at_fenced = match_at_fenced_gen [OF pre_paths grp_lazy post_nonempty]

lemma fenced_at_Nil [simp]: "fenced_at [] = None"
  by (simp add: fenced_at_def)

lemma search_fenced_eq: "search_fenced t = find_fenced t"
  unfolding search_fenced_def
  by (induction t) (simp_all only: search.simps find_fenced.simps match_at_fenced fenced_at_Nil)

lemma inner_braces:
  "W = p @ r \<Longrightarrow>
   headopt (map (\<lambda>s2. take (length W - length s2) W) (rev (closers r)))
     = (if 125 \<in> set r then Some (p @ up_to_last r) else None)"
proof (induction r arbitrary: p)
  case Nil
  then show ?case by simp
next
  case (Cons x xs)
  have W: "W = (p @ [x]) @ xs" using Cons.prems by simp
  have first: "take (length W - length xs) W = p @ [x]"
    using Cons.prems by simp
  from Cons.IH [OF W] first show ?case
    by (simp add: headopt_append)
qed

lemma match_at_braces:
  "match_at Eps (Cat (Lit 123) (Cat (Star Dot) (Lit 125))) Eps s =
     (case s of
        [] \<Rightarrow> None
      | c # r \<Rightarrow> if c = 123 \<and> 125 \<in> set r then Some (c # up_to_last r) else None)"
proof (cases s)
  case Nil
  then show ?thesis by (simp add: match_at_headopt paths_Eps grp_greedy)
next
  case (Cons c r)
  have flat: "match_at Eps (Cat (Lit 123) (Cat (Star Dot) (Lit 125))) Eps s =
      headopt (map (\<lambda>s2. take (length s - length s2) s)
                 (paths (Cat (Lit 123) (Cat (Star Dot) (Lit 125))) s))"
    by (simp add: match_at_headopt paths_Eps concat_map_singleton)
  show ?thesis
  proof (cases "c = 123")
    case False
    with Cons flat show ?thesis by (simp add: grp_greedy)
  next
    case True
    with Cons flat inner_braces [of s "[c]" r] show ?thesis
      by (simp add: grp_greedy)
  qed
qed

lemma brace_span_None: "125 \<notin> set t \<Longrightarrow> brace_span t = None"
proof -
  assume a: "125 \<notin> set t"
  show ?thesis
  proof (cases "dropWhile (\<lambda>c. c \<noteq> 123) t")
    case Nil
    then show ?thesis by (simp only: brace_span_def list.case)
  next
    case (Cons c r)
    have "set (dropWhile (\<lambda>c. c \<noteq> 123) t) \<subseteq> set t"
      by (rule set_dropWhileD [THEN subsetI])
    with Cons a have "125 \<notin> set r" by auto
    with Cons show ?thesis by (simp only: brace_span_def list.case if_False)
  qed
qed

lemma search_braces_eq: "search_braces t = brace_span t"
  unfolding search_braces_def
proof (induction t)
  case Nil
  then show ?case by (simp add: match_at_braces brace_span_def)
next
  case (Cons c cs)
  show ?case
  proof (cases "c = 123")
    case False
    with Cons show ?thesis by (simp add: match_at_braces brace_span_def)
  next
    case True
    show ?thesis
    proof (cases "125 \<in> set cs")
      case in_cs: True
      with True show ?thesis by (simp add: match_at_braces brace_span_def)
    next
      case False
      with True Cons brace_span_None [of cs] show ?thesis
        by (simp add: match_at_braces brace_span_def)
    qed
  qed
qed

lemma replace_Nil [simp]: "old \<noteq> [] \<Longrightarrow> replace old new [] = []"
  by simp

lemma strip_Nil [simp]: "strip [] = []"
  by (simp add: strip_def)

lemma replace_absent: "old \<noteq> [] \<Longrightarrow> \<not> sublist old s \<Longrightarrow> replace old new s = s"
proof (induction s)
  case Nil
  then show ?case by simp
next
  case (Cons c cs)
  then have "\<not> prefix old (c # cs)" "\<not> sublist old cs"
    by (auto simp: sublist_Cons_right)
  with Cons show ?case by simp
qed

lemma strip_id: "s \<noteq> [] \<Longrightarrow> \<not> is_space (hd s) \<Longrightarrow> \<not> is_space (last s) \<Longrightarrow> strip s = s"
proof -
  assume a: "s \<noteq> []" "\<not> is_space (hd s)" "\<not> is_space (last s)"
  then have "dropWhile is_space s = s"
    by (simp add: dropWhile_eq_self_iff)
  moreover have "dropWhile is_space (rev s) = rev s"
    using a by (simp add: dropWhile_eq_self_iff hd_rev)
  ultimately show ?thesis by (simp add: strip_def)
qed

lemma closes_fence_end: "\<forall>c\<in>set ws. is_space c \<Longrightarrow> closes (ws @ [96, 96, 96])"
  by (simp add: closes_def str_fence dropWhile_append2)

lemma braced_shape:
  assumes "s \<noteq> []" "hd s = 123" "last s = (125::int)"
  obtains a where "s = 123 # a @ [125]"
proof -
  from assms have s: "s = 123 # tl s" by (cases s) auto
  with assms have "tl s \<noteq> []" by (cases "tl s") auto
  then have "tl s = butlast (tl s) @ [last (tl s)]" by simp
  moreover have "last (tl s) = 125" using assms \<open>tl s \<noteq> []\<close> s
    by (metis last_ConsR)
  ultimately have "s = 123 # butlast (tl s) @ [125]" using s by metis
  then show ?thesis by (rule that)
qed

text \<open>
  A text that \<open>json.loads\<close> accepts is lexically well formed. Hence, if it has no double
  backslash, every backslash in it starts an escape inside a string: replacing
  backslash-t by a tabulator puts a control character into a string, and
  backslash-apostrophe cannot occur.
\<close>

lemma lexrun_append: "lexrun st p = Some st' \<Longrightarrow> lexrun st (p @ q) = lexrun st' q"
  by (induction st p rule: lexrun.induct) (auto split: if_splits list.splits)

lemma lexrun_plain:
  "\<forall>c\<in>set p. c \<noteq> 34 \<and> c \<noteq> 92 \<Longrightarrow> lexrun False p = Some False"
  by (induction p) auto

lemma lexrun_inside:
  "\<forall>c\<in>set p. c \<noteq> 34 \<and> c \<noteq> 92 \<and> \<not> c \<le> 31 \<Longrightarrow> lexrun True p = Some True"
  by (induction p) auto

lemma hexval_plain: "hexval c = Some v \<Longrightarrow> c \<noteq> 34 \<and> c \<noteq> 92 \<and> \<not> c \<le> 31"
  by (auto simp: hexval_def split: if_splits)

lemma hex4_plain:
  assumes "hex4 xs = Some u"
  shows "length xs = 4 \<and> lexrun True xs = Some True"
proof -
  from assms obtain a b c d where xs: "xs = [a, b, c, d]"
    by (cases xs rule: hex4.cases) auto
  with assms obtain x y z w where "hexval a = Some x" "hexval b = Some y" "hexval c = Some z"
    "hexval d = Some w"
    by (auto split: option.splits)
  then have "\<forall>c\<in>set xs. c \<noteq> 34 \<and> c \<noteq> 92 \<and> \<not> c \<le> 31"
    using xs hexval_plain by auto
  with xs show ?thesis using lexrun_inside by auto
qed

lemma hex4_take: "hex4 (take 4 es) = Some u \<Longrightarrow> es = take 4 es @ drop 4 es \<and> lexrun True (take 4 es) = Some True"
  using hex4_plain by auto

lemma scan_escape_lex:
  assumes "scan_escape cs = Some (ch, t)"
  shows "\<exists>q. cs = q @ t \<and> lexrun True (92 # q) = Some True"
proof -
  from assms obtain e es where cs: "cs = e # es"
    by (cases cs) (auto simp: scan_escape_def)
  show ?thesis
  proof (cases "e = 117")
    case False
    with assms cs have "backslash e \<noteq> None" "t = es"
      by (auto simp: scan_escape_def split: option.splits)
    with False cs have "cs = [e] @ t \<and> lexrun True (92 # [e]) = Some True" by simp
    then show ?thesis by blast
  next
    case True
    with assms cs obtain u where u: "hex4 (take 4 es) = Some u"
      by (auto simp: scan_escape_def split: option.splits)
    note h1 = hex4_plain [OF u]
    have first: "lexrun True (92 # e # take 4 es) = Some True"
      using True h1 by simp
    from assms cs True u consider (single) "t = drop 4 es"
      | (pair) u2 where "t = drop 10 es" "take 2 (drop 4 es) = [92, 117]"
          "hex4 (take 4 (drop 6 es)) = Some u2"
      by (auto simp: scan_escape_def split: option.splits if_splits)
    then show ?thesis
    proof cases
      case single
      have "cs = (e # take 4 es) @ t" using cs single by simp
      with first show ?thesis by blast
    next
      case pair
      note h2 = hex4_plain [OF pair(3)]
      have split: "es = take 4 es @ take 2 (drop 4 es) @ take 4 (drop 6 es) @ drop 10 es"
      proof -
        have b: "take 2 (drop 4 es) @ drop 6 es = drop 4 es"
          using append_take_drop_id [of 2 "drop 4 es"] by (simp del: append_take_drop_id)
        have c: "take 4 (drop 6 es) @ drop 10 es = drop 6 es"
          using append_take_drop_id [of 4 "drop 6 es"] by (simp del: append_take_drop_id)
        have "es = take 4 es @ drop 4 es" by simp
        with b c show ?thesis by simp
      qed
      let ?q = "e # take 4 es @ [92, 117] @ take 4 (drop 6 es)"
      have "cs = ?q @ t" using cs pair(1,2) split by simp
      moreover have "lexrun True (92 # ?q) = Some True"
      proof -
        have "lexrun True (92 # e # take 4 es @ ([92, 117] @ take 4 (drop 6 es)))
              = lexrun True ([92, 117] @ take 4 (drop 6 es))"
          using lexrun_append [OF first, of "[92, 117] @ take 4 (drop 6 es)"] by simp
        also have "\<dots> = Some True" using h2 by simp
        finally show ?thesis by simp
      qed
      ultimately show ?thesis by blast
    qed
  qed
qed

lemma scanstring_lex:
  "scanstring cs = Some (x, r) \<Longrightarrow> \<exists>p. cs = p @ r \<and> lexrun True p = Some False"
proof (induction cs arbitrary: x rule: scanstring.induct)
  case 1
  then show ?case by simp
next
  case (2 c cs)
  show ?case
  proof (cases "c = 34")
    case True
    with "2.prems" have "c # cs = [c] @ r \<and> lexrun True [c] = Some False" by simp
    then show ?thesis by blast
  next
    case nq: False
    show ?thesis
    proof (cases "c = 92")
      case True
      with nq "2.prems" obtain ch t where esc: "scan_escape cs = Some (ch, t)"
        by (auto split: option.splits)
      with nq True "2.prems" obtain y where "scanstring t = Some (y, r)"
        by (auto dest: push_Some)
      with "2.IH"(1) [OF nq True esc refl] obtain p where p: "t = p @ r" "lexrun True p = Some False"
        by blast
      from scan_escape_lex [OF esc] obtain q where q: "cs = q @ t" "lexrun True (92 # q) = Some True"
        by blast
      have "c # cs = (92 # q @ p) @ r" using True q(1) p(1) by simp
      moreover have "lexrun True (92 # q @ p) = Some False"
        using lexrun_append [OF q(2), of p] p(2) by simp
      ultimately show ?thesis by blast
    next
      case False
      with nq "2.prems" obtain y where y: "scanstring cs = Some (y, r)" and c: "\<not> c \<le> 31"
        by (auto split: if_splits dest: push_Some)
      with "2.IH"(2) [OF nq False] obtain p where p: "cs = p @ r" "lexrun True p = Some False"
        by blast
      have "c # cs = (c # p) @ r" using p(1) by simp
      moreover have "lexrun True (c # p) = Some False" using nq False c p(2) by simp
      ultimately show ?thesis by blast
    qed
  qed
qed

lemma reads_refl: "reads s s"
  unfolding reads_def by (rule exI [of _ "[]"]) simp

lemma reads_trans: "reads a b \<Longrightarrow> reads b c \<Longrightarrow> reads a c"
proof -
  assume "reads a b" "reads b c"
  then obtain p q where p: "a = p @ b" "lexrun False p = Some False"
    and q: "b = q @ c" "lexrun False q = Some False"
    unfolding reads_def by blast
  have "a = (p @ q) @ c" using p(1) q(1) by simp
  moreover have "lexrun False (p @ q) = Some False"
    using lexrun_append [OF p(2), of q] q(2) by simp
  ultimately show ?thesis unfolding reads_def by blast
qed

lemma reads_plain: "\<forall>c\<in>set p. c \<noteq> 34 \<and> c \<noteq> 92 \<Longrightarrow> reads (p @ r) r"
  unfolding reads_def using lexrun_plain by blast

lemma reads_Cons: "c \<noteq> 34 \<Longrightarrow> c \<noteq> 92 \<Longrightarrow> reads (c # r) r"
  using reads_plain [of "[c]" r] by simp

lemma reads_skip_ws: "reads s (skip_ws s)"
proof -
  have "s = takeWhile json_ws s @ skip_ws s" by (simp add: skip_ws_def)
  moreover have "\<forall>c\<in>set (takeWhile json_ws s). c \<noteq> 34 \<and> c \<noteq> 92"
    by (auto dest: set_takeWhileD simp: json_ws_def)
  ultimately show ?thesis using reads_plain by metis
qed

lemma reads_string: "scanstring cs = Some (x, r) \<Longrightarrow> reads (34 # cs) r"
proof -
  assume "scanstring cs = Some (x, r)"
  from scanstring_lex [OF this] obtain p where p: "cs = p @ r" "lexrun True p = Some False"
    by blast
  then have "34 # cs = (34 # p) @ r \<and> lexrun False (34 # p) = Some False" by simp
  then show ?thesis unfolding reads_def by blast
qed

lemma digits_plain: "\<forall>c\<in>set (takeWhile is_digit r). c \<noteq> 34 \<and> c \<noteq> 92"
  by (auto dest: set_takeWhileD simp: is_digit_def)

lemma scan_sign_reads: "scan_sign s = (sg, r) \<Longrightarrow> reads s r"
  by (auto simp: scan_sign_def reads_refl reads_Cons split: list.splits if_splits)

lemma scan_int_reads: "scan_int s = Some (ip, r) \<Longrightarrow> reads s r"
proof -
  assume a: "scan_int s = Some (ip, r)"
  then obtain c t where s: "s = c # t" "is_digit c"
    by (cases s) (auto simp: scan_int_def split: if_splits)
  then have c: "c \<noteq> 34" "c \<noteq> 92" by (auto simp: is_digit_def)
  show ?thesis
  proof (cases "c = 48")
    case True
    with a s have "r = t" by (simp add: scan_int_def)
    with s c show ?thesis by (simp add: reads_Cons)
  next
    case False
    with a s have "r = dropWhile is_digit t" by (simp add: scan_int_def)
    then have "s = (c # takeWhile is_digit t) @ r" using s by simp
    moreover have "\<forall>x\<in>set (c # takeWhile is_digit t). x \<noteq> 34 \<and> x \<noteq> 92"
      using c digits_plain [of t] by simp
    ultimately show ?thesis using reads_plain by metis
  qed
qed

lemma scan_frac_reads: "scan_frac s = (f, r) \<Longrightarrow> reads s r"
proof -
  assume a: "scan_frac s = (f, r)"
  show ?thesis
  proof (cases "\<exists>p d t. s = p # d # t \<and> p = 46 \<and> is_digit d")
    case False
    with a have "r = s"
      by (auto simp: scan_frac_def split: list.splits if_splits)
    then show ?thesis by (simp add: reads_refl)
  next
    case True
    then obtain d t where s: "s = 46 # d # t" "is_digit d" by blast
    with a have "r = dropWhile is_digit t" by (simp add: scan_frac_def)
    then have "s = (46 # d # takeWhile is_digit t) @ r" using s by simp
    moreover have "\<forall>x\<in>set (46 # d # takeWhile is_digit t). x \<noteq> 34 \<and> x \<noteq> 92"
      using s(2) digits_plain [of t] by (simp add: is_digit_def)
    ultimately show ?thesis using reads_plain by metis
  qed
qed

lemma scan_exp_reads: "scan_exp s = (x, r) \<Longrightarrow> reads s r"
proof (cases s)
  case Nil
  then show "scan_exp s = (x, r) \<Longrightarrow> reads s r"
    by (simp add: scan_exp_def reads_refl)
next
  case (Cons e t)
  assume a: "scan_exp s = (x, r)"
  obtain sg r' where r': "(case t of [] \<Rightarrow> ([], t)
                           | g # u \<Rightarrow> if g = 43 \<or> g = 45 then ([g], u) else ([], t)) = (sg, r')"
    by force
  then have t: "t = sg @ r'" "\<forall>c\<in>set sg. c \<noteq> 34 \<and> c \<noteq> 92"
    by (auto split: list.splits if_splits)
  show "reads s r"
  proof (cases "(e = 101 \<or> e = 69) \<and> takeWhile is_digit r' \<noteq> []")
    case False
    with a Cons r' have "r = s"
      by (auto simp: scan_exp_def Let_def split: if_splits)
    then show ?thesis by (simp add: reads_refl)
  next
    case True
    with a Cons r' have "r = dropWhile is_digit r'"
      by (auto simp: scan_exp_def Let_def)
    then have "s = (e # sg @ takeWhile is_digit r') @ r" using Cons t(1) by simp
    moreover have "\<forall>c\<in>set (e # sg @ takeWhile is_digit r'). c \<noteq> 34 \<and> c \<noteq> 92"
      using True t(2) digits_plain [of r'] by auto
    ultimately show ?thesis using reads_plain by metis
  qed
qed

lemma scan_number_reads: "scan_number s = Some (v, r) \<Longrightarrow> reads s r"
proof -
  assume a: "scan_number s = Some (v, r)"
  obtain sg s1 where s1: "scan_sign s = (sg, s1)" by force
  with a obtain ip s2 where s2: "scan_int s1 = Some (ip, s2)"
    by (auto simp: scan_number_def split: option.splits)
  obtain f s3 where s3: "scan_frac s2 = (f, s3)" by force
  obtain e s4 where s4: "scan_exp s3 = (e, s4)" by force
  from a s1 s2 s3 s4 have "r = s4"
    by (auto simp: scan_number_def split: if_splits)
  with scan_sign_reads [OF s1] scan_int_reads [OF s2] scan_frac_reads [OF s3]
    scan_exp_reads [OF s4]
  show ?thesis using reads_trans by blast
qed

lemma prefix_reads:
  "prefix w s \<Longrightarrow> \<forall>c\<in>set w. c \<noteq> 34 \<and> c \<noteq> 92 \<Longrightarrow> reads s (drop (length w) s)"
proof -
  assume "prefix w s" and w: "\<forall>c\<in>set w. c \<noteq> 34 \<and> c \<noteq> 92"
  then have "s = w @ drop (length w) s" by (auto simp: prefix_def)
  with w show ?thesis using reads_plain by metis
qed

lemma scan_constant_reads: "scan_constant s = Some (v, r) \<Longrightarrow> reads s r"
proof -
  assume a: "scan_constant s = Some (v, r)"
  have words: "\<forall>c\<in>set (str ''null''). c \<noteq> 34 \<and> c \<noteq> 92"
    "\<forall>c\<in>set (str ''true''). c \<noteq> 34 \<and> c \<noteq> 92"
    "\<forall>c\<in>set (str ''false''). c \<noteq> 34 \<and> c \<noteq> 92"
    "\<forall>c\<in>set (str ''NaN''). c \<noteq> 34 \<and> c \<noteq> 92"
    "\<forall>c\<in>set (str ''Infinity''). c \<noteq> 34 \<and> c \<noteq> 92"
    "\<forall>c\<in>set (str ''-Infinity''). c \<noteq> 34 \<and> c \<noteq> 92"
    by (simp_all add: str_def)
  have lens: "length (str ''null'') = 4" "length (str ''true'') = 4" "length (str ''false'') = 5"
    "length (str ''NaN'') = 3" "length (str ''Infinity'') = 8" "length (str ''-Infinity'') = 9"
    by (simp_all add: str_def)
  from a consider (w1) "prefix (str ''null'') s" "r = drop 4 s"
    | (w2) "prefix (str ''true'') s" "r = drop 4 s"
    | (w3) "prefix (str ''false'') s" "r = drop 5 s"
    | (w4) "prefix (str ''NaN'') s" "r = drop 3 s"
    | (w5) "prefix (str ''Infinity'') s" "r = drop 8 s"
    | (w6) "prefix (str ''-Infinity'') s" "r = drop 9 s"
    | (num) "scan_number s = Some (v, r)"
    unfolding scan_constant_def by (auto split: if_splits)
  then show ?thesis
  proof cases
    case w1 then show ?thesis using prefix_reads [OF w1(1) words(1)] lens by simp
  next
    case w2 then show ?thesis using prefix_reads [OF w2(1) words(2)] lens by simp
  next
    case w3 then show ?thesis using prefix_reads [OF w3(1) words(3)] lens by simp
  next
    case w4 then show ?thesis using prefix_reads [OF w4(1) words(4)] lens by simp
  next
    case w5 then show ?thesis using prefix_reads [OF w5(1) words(5)] lens by simp
  next
    case w6 then show ?thesis using prefix_reads [OF w6(1) words(6)] lens by simp
  next
    case num then show ?thesis by (rule scan_number_reads)
  qed
qed

lemma decoder_reads:
  "(scan_once s = Some (v, r) \<longrightarrow> reads s r) \<and>
   (parse_object pairs s = Some (v, r) \<longrightarrow> reads s r) \<and>
   (parse_array items s = Some (v, r) \<longrightarrow> reads s r)"
proof (induction s arbitrary: v r pairs items rule: length_induct)
  case (1 s)
  have IH_once: "\<And>t v r. length t < length s \<Longrightarrow> scan_once t = Some (v, r) \<Longrightarrow> reads t r"
    and IH_obj: "\<And>t p v r. length t < length s \<Longrightarrow> parse_object p t = Some (v, r) \<Longrightarrow> reads t r"
    and IH_arr: "\<And>t i v r. length t < length s \<Longrightarrow> parse_array i t = Some (v, r) \<Longrightarrow> reads t r"
    using "1.IH" by blast+
  have once: "reads s r" if a: "scan_once s = Some (v, r)" for v r
  proof (cases s)
    case Nil
    with a show ?thesis by (simp add: scan_once.simps)
  next
    case (Cons c cs)
    have ws: "length (skip_ws cs) \<le> length cs" by (rule skip_ws_le)
    consider (str) "c = 34" | (obj) "c \<noteq> 34" "c = 123" | (arr) "c \<noteq> 34" "c \<noteq> 123" "c = 91"
      | (const) "c \<noteq> 34" "c \<noteq> 123" "c \<noteq> 91" by blast
    then show ?thesis
    proof cases
      case str
      with a Cons obtain x where "scanstring cs = Some (x, r)"
        by (auto simp: scan_once.simps split: option.splits)
      from reads_string [OF this] Cons str show ?thesis by simp
    next
      case obj
      have head: "reads s (skip_ws cs)"
        using reads_trans [OF reads_Cons [of c cs] reads_skip_ws [of cs]] obj Cons by simp
      show ?thesis
      proof (cases "skip_ws cs")
        case Nil
        with a Cons obj show ?thesis by (simp add: scan_once.simps parse_object.simps)
      next
        case inner: (Cons d r0)
        show ?thesis
        proof (cases "d = 125")
          case True
          with a Cons obj inner have "r = r0" by (simp add: scan_once.simps)
          moreover have "reads (d # r0) r0" using True by (simp add: reads_Cons)
          ultimately show ?thesis using head inner reads_trans by metis
        next
          case False
          with a Cons obj inner have p: "parse_object [] (d # r0) = Some (v, r)"
            by (simp add: scan_once.simps)
          have "length (d # r0) < length s" using inner ws Cons by simp
          from IH_obj [OF this p] head inner show ?thesis using reads_trans by metis
        qed
      qed
    next
      case arr
      have head: "reads s (skip_ws cs)"
        using reads_trans [OF reads_Cons [of c cs] reads_skip_ws [of cs]] arr Cons by simp
      show ?thesis
      proof (cases "skip_ws cs")
        case Nil
        with a Cons arr show ?thesis
          by (simp add: scan_once.simps parse_array.simps [of _ "[]"])
      next
        case inner: (Cons d r0)
        show ?thesis
        proof (cases "d = 93")
          case True
          with a Cons arr inner have "r = r0" by (simp add: scan_once.simps)
          moreover have "reads (d # r0) r0" using True by (simp add: reads_Cons)
          ultimately show ?thesis using head inner reads_trans by metis
        next
          case False
          with a Cons arr inner have p: "parse_array [] (d # r0) = Some (v, r)"
            by (simp add: scan_once.simps)
          have "length (d # r0) < length s" using inner ws Cons by simp
          from IH_arr [OF this p] head inner show ?thesis using reads_trans by metis
        qed
      qed
    next
      case const
      with a Cons have "scan_constant s = Some (v, r)" by (simp add: scan_once.simps)
      then show ?thesis by (rule scan_constant_reads)
    qed
  qed
  have obj: "reads s r" if a: "parse_object pairs s = Some (v, r)" for pairs v r
  proof -
    from a obtain s1 where s: "s = 34 # s1"
      by (cases s) (auto simp: parse_object.simps split: if_splits)
    from a s obtain key s2 where key: "scanstring s1 = Some (key, s2)"
      by (auto simp: parse_object.simps split: option.splits)
    from a s key obtain s3 where colon: "skip_ws s2 = 58 # s3"
      by (cases "skip_ws s2") (auto simp: parse_object.simps split: if_splits)
    from a s key colon obtain val s4 where val: "scan_once (skip_ws s3) = Some (val, s4)"
      by (auto simp: parse_object.simps split: option.splits)
    from a s key colon val obtain d s5 where d: "skip_ws s4 = d # s5"
      by (cases "skip_ws s4") (auto simp: parse_object.simps)
    have l2: "length s2 < length s1" by (rule scanstring_shorter [OF key])
    have l3: "length s3 < length s2" using colon skip_ws_le [of s2] by simp
    have l3': "length (skip_ws s3) < length s" using l2 l3 s skip_ws_le [of s3] by simp
    have l4: "length s4 < length (skip_ws s3)"
      using decoder_shorter [of "skip_ws s3" val s4] val by blast
    have l5: "length s5 < length s4" using d skip_ws_le [of s4] by simp
    have total: "length s5 < length s" using l3' l4 l5 by simp
    have r1: "reads s s2" using reads_string [OF key] s by simp
    have r2: "reads s2 s3"
      using reads_trans [OF reads_skip_ws [of s2]] colon reads_Cons [of 58 s3] by simp
    have r3: "reads s3 s4"
      using reads_trans [OF reads_skip_ws [of s3] IH_once [OF l3' val]] .
    have dd: "d = 125 \<or> d = 44"
      using a s key colon val d by (auto simp: parse_object.simps split: if_splits)
    have r4: "reads s4 s5"
      using reads_trans [OF reads_skip_ws [of s4]] d dd reads_Cons [of d s5] by auto
    have upto: "reads s s5" using r1 r2 r3 r4 reads_trans by blast
    show ?thesis
    proof (cases "d = 125")
      case True
      with a s key colon val d have "r = s5" by (simp add: parse_object.simps)
      with upto show ?thesis by simp
    next
      case False
      with a s key colon val d total
      have p: "parse_object (dict_set pairs key val) (skip_ws s5) = Some (v, r)"
        by (simp add: parse_object.simps split: if_splits)
      have "length (skip_ws s5) < length s" using total skip_ws_le [of s5] by simp
      from IH_obj [OF this p] upto reads_skip_ws [of s5] show ?thesis
        using reads_trans by blast
    qed
  qed
  have arr: "reads s r" if a: "parse_array items s = Some (v, r)" for items v r
  proof -
    from a obtain val s1 where val: "scan_once s = Some (val, s1)"
      by (auto simp: parse_array.simps [of _ s] split: option.splits)
    from a val obtain d s2 where d: "skip_ws s1 = d # s2"
      by (cases "skip_ws s1") (auto simp: parse_array.simps [of _ s])
    have l1: "length s1 < length s"
      using decoder_shorter [of s val s1] val by blast
    have l2: "length s2 < length s" using d skip_ws_le [of s1] l1 by simp
    have dd: "d = 93 \<or> d = 44"
      using a val d by (auto simp: parse_array.simps [of _ s] split: if_splits)
    have r1: "reads s s1" by (rule once [OF val])
    have r2: "reads s1 s2"
      using reads_trans [OF reads_skip_ws [of s1]] d dd reads_Cons [of d s2] by auto
    show ?thesis
    proof (cases "d = 93")
      case True
      with a val d have "r = s2" by (simp add: parse_array.simps [of _ s])
      with r1 r2 show ?thesis using reads_trans by blast
    next
      case False
      with a val d l2 have p: "parse_array (items @ [val]) (skip_ws s2) = Some (v, r)"
        by (simp add: parse_array.simps [of _ s] split: if_splits)
      have "length (skip_ws s2) < length s" using l2 skip_ws_le [of s2] by simp
      from IH_arr [OF this p] r1 r2 reads_skip_ws [of s2] show ?thesis
        using reads_trans by blast
    qed
  qed
  from once obj arr show ?case by blast
qed

lemma json_loads_lex: "json_loads s = Some v \<Longrightarrow> lexrun False s = Some False"
proof -
  assume a: "json_loads s = Some v"
  then obtain r where val: "scan_once (skip_ws s) = Some (v, r)" and r: "skip_ws r = []"
    by (auto simp: json_loads_def split: if_splits option.splits)
  have "reads s (skip_ws s)" by (rule reads_skip_ws)
  moreover have "reads (skip_ws s) r" using decoder_reads [of "skip_ws s" v r] val by blast
  moreover have "reads r []" using reads_skip_ws [of r] r by simp
  ultimately have "reads s []" using reads_trans by blast
  then show ?thesis by (simp add: reads_def)
qed

lemma sublist2_Cons:
  "sublist [a, b] (c # cs) \<longleftrightarrow> (c = a \<and> (\<exists>t. cs = b # t)) \<or> sublist [a, b] cs"
  by (cases cs) (auto simp: sublist_Cons_right)

lemma tab_breaks:
  "lexrun st s = Some st' \<Longrightarrow> \<not> sublist [92, 92] s \<Longrightarrow> sublist [92, 116] s \<Longrightarrow>
   lexrun st (replace [92, 116] [9] s) = None"
proof (induction st s rule: lexrun.induct)
  case (1 st)
  then show ?case by simp
next
  case (2 c cs)
  then have c: "c \<noteq> 92" by (auto split: if_splits)
  with "2.prems" have sub: "\<not> sublist [92, 92] cs" "sublist [92, 116] cs"
    by (auto simp: sublist2_Cons)
  from c have rep: "replace [92, 116] [9] (c # cs) = c # replace [92, 116] [9] cs" by simp
  show ?case
  proof (cases "c = 34")
    case True
    with "2.prems"(1) c have "lexrun True cs = Some st'" by simp
    from "2.IH"(1) [OF c True this sub] c True rep show ?thesis by simp
  next
    case False
    with "2.prems"(1) c have "lexrun False cs = Some st'" by simp
    from "2.IH"(2) [OF c False this sub] c False rep show ?thesis by simp
  qed
next
  case (3 c cs)
  show ?case
  proof (cases "c = 34")
    case True
    with "3.prems" have sub: "\<not> sublist [92, 92] cs" "sublist [92, 116] cs"
      by (auto simp: sublist2_Cons)
    from True have rep: "replace [92, 116] [9] (c # cs) = c # replace [92, 116] [9] cs" by simp
    from "3.prems"(1) True have "lexrun False cs = Some st'" by simp
    from "3.IH"(1) [OF True this sub] True rep show ?thesis by simp
  next
    case nq: False
    show ?thesis
    proof (cases "c = 92")
      case True
      with nq "3.prems"(1) obtain e es where cs: "cs = e # es"
        and ok: "e = 117 \<or> backslash e \<noteq> None" and run: "lexrun True es = Some st'"
        by (cases cs) (auto split: if_splits)
      from "3.prems"(2) True cs have e: "e \<noteq> 92" by (auto simp: sublist2_Cons)
      show ?thesis
      proof (cases "e = 116")
        case t: True
        with True cs have "replace [92, 116] [9] (c # cs) = 9 # replace [92, 116] [9] es"
          by simp
        then show ?thesis by simp
      next
        case False
        with True cs e have rep: "replace [92, 116] [9] (c # cs) = 92 # e # replace [92, 116] [9] es"
          by simp
        from "3.prems"(2,3) True cs e False
        have sub: "\<not> sublist [92, 92] es" "sublist [92, 116] es"
          by (auto simp: sublist2_Cons)
        from "3.IH"(2) [OF nq True cs ok run sub] rep ok show ?thesis by simp
      qed
    next
      case False
      with nq "3.prems"(1) have c: "\<not> c \<le> 31" and run: "lexrun True cs = Some st'"
        by (auto split: if_splits)
      from False "3.prems"(2,3) have sub: "\<not> sublist [92, 92] cs" "sublist [92, 116] cs"
        by (auto simp: sublist2_Cons)
      from False have rep: "replace [92, 116] [9] (c # cs) = c # replace [92, 116] [9] cs" by simp
      from "3.IH"(3) [OF nq False c run sub] nq False c rep show ?thesis by simp
    qed
  qed
qed

lemma no_apostrophe_escape:
  "lexrun st s = Some st' \<Longrightarrow> \<not> sublist [92, 92] s \<Longrightarrow> \<not> sublist [92, 39] s"
proof (induction st s rule: lexrun.induct)
  case (1 st)
  then show ?case by simp
next
  case (2 c cs)
  then have c: "c \<noteq> 92" by (auto split: if_splits)
  with "2.prems" have sub: "\<not> sublist [92, 92] cs" by (auto simp: sublist2_Cons)
  show ?case
  proof (cases "c = 34")
    case True
    with "2.prems"(1) c have "lexrun True cs = Some st'" by simp
    from "2.IH"(1) [OF c True this sub] c show ?thesis by (auto simp: sublist2_Cons)
  next
    case False
    with "2.prems"(1) c have "lexrun False cs = Some st'" by simp
    from "2.IH"(2) [OF c False this sub] c show ?thesis by (auto simp: sublist2_Cons)
  qed
next
  case (3 c cs)
  show ?case
  proof (cases "c = 34")
    case True
    with "3.prems" have sub: "\<not> sublist [92, 92] cs" by (auto simp: sublist2_Cons)
    from "3.prems"(1) True have "lexrun False cs = Some st'" by simp
    from "3.IH"(1) [OF True this sub] True show ?thesis by (auto simp: sublist2_Cons)
  next
    case nq: False
    show ?thesis
    proof (cases "c = 92")
      case True
      with nq "3.prems"(1) obtain e es where cs: "cs = e # es"
        and ok: "e = 117 \<or> backslash e \<noteq> None" and run: "lexrun True es = Some st'"
        by (cases cs) (auto split: if_splits)
      from "3.prems"(2) True cs have e: "e \<noteq> 92" by (auto simp: sublist2_Cons)
      from ok have e39: "e \<noteq> 39" by (auto simp: backslash_def)
      from "3.prems"(2) True cs e have sub: "\<not> sublist [92, 92] es"
        by (auto simp: sublist2_Cons)
      from "3.IH"(2) [OF nq True cs ok run sub] True cs e e39 show ?thesis
        by (auto simp: sublist2_Cons)
    next
      case False
      with nq "3.prems"(1) have c: "\<not> c \<le> 31" and run: "lexrun True cs = Some st'"
        by (auto split: if_splits)
      from False "3.prems"(2) have sub: "\<not> sublist [92, 92] cs"
        by (auto simp: sublist2_Cons)
      from "3.IH"(3) [OF nq False c run sub] False show ?thesis
        by (auto simp: sublist2_Cons)
    qed
  qed
qed

lemma replace_tab_no_new:
  "x \<noteq> 9 \<Longrightarrow> \<not> sublist [92, x] s \<Longrightarrow> \<not> sublist [92, x] (replace [92, 116] [9] s)"
proof (induction s rule: length_induct)
  case (1 s)
  show ?case
  proof (cases s)
    case Nil
    then show ?thesis by simp
  next
    case (Cons c cs)
    show ?thesis
    proof (cases "prefix [92, 116] (c # cs)")
      case True
      then obtain rest where rest: "c = 92" "cs = 116 # rest" by (cases cs) auto
      with Cons "1.prems"(2) have "\<not> sublist [92, x] rest" by (auto simp: sublist2_Cons)
      with "1.IH" Cons rest "1.prems"(1)
      have "\<not> sublist [92, x] (replace [92, 116] [9] rest)" by simp
      moreover have "replace [92, 116] [9] s = 9 # replace [92, 116] [9] rest"
        using Cons rest by simp
      ultimately show ?thesis by (simp add: sublist2_Cons)
    next
      case False
      then have rep: "replace [92, 116] [9] s = c # replace [92, 116] [9] cs"
        using Cons by simp
      from Cons "1.prems"(2) have sub: "\<not> sublist [92, x] cs" by (auto simp: sublist2_Cons)
      with "1.IH" Cons "1.prems"(1) have tail: "\<not> sublist [92, x] (replace [92, 116] [9] cs)"
        by simp
      have "\<not> (c = 92 \<and> (\<exists>t. replace [92, 116] [9] cs = x # t))"
      proof
        assume h: "c = 92 \<and> (\<exists>t. replace [92, 116] [9] cs = x # t)"
        then obtain t where t: "replace [92, 116] [9] cs = x # t" by blast
        show False
        proof (cases cs)
          case Nil
          with t show False by simp
        next
          case inner: (Cons c' cs')
          show False
          proof (cases "prefix [92, 116] (c' # cs')")
            case True
            with inner t "1.prems"(1) show False by (auto split: if_splits)
          next
            case np: False
            with inner t have "c' = x" by (auto split: if_splits)
            with h inner Cons "1.prems"(2) show False by (auto simp: sublist2_Cons)
          qed
        qed
      qed
      with tail rep show ?thesis by (simp add: sublist2_Cons)
    qed
  qed
qed

lemma closes_ext: "closes (xs @ 125 # rest) = closes (xs @ [125])"
proof (induction xs)
  case Nil
  then show ?case by (simp add: closes_def str_fence)
next
  case (Cons x xs)
  show ?case
  proof (cases "is_space x")
    case True
    with Cons show ?thesis by (simp add: closes_def)
  next
    case False
    have "prefix [96, 96, 96] (x # xs @ 125 # rest) = prefix [96, 96, 96] (x # xs @ [125])"
      by (cases xs; cases "tl xs") auto
    with False show ?thesis by (simp add: closes_def str_fence)
  qed
qed

lemma shortest_body_no_brace_fence:
  assumes "\<forall>c\<in>set ws. is_space c"
  shows "\<not> brace_then_fence (a @ [125]) \<Longrightarrow>
         shortest_body (a @ 125 # ws @ [96, 96, 96]) = Some (a @ [125])"
proof (induction a)
  case Nil
  then show ?case using closes_fence_end [OF assms] by simp
next
  case (Cons x xs)
  then have "\<not> (x = 125 \<and> closes (xs @ [125]))" "\<not> brace_then_fence (xs @ [125])"
    by simp_all
  with Cons.IH closes_ext [of xs "ws @ [96, 96, 96]"] show ?case by simp
qed

lemma find_fenced_serialisation:
  assumes "s \<noteq> []" "hd s = 123" "last s = 125" "\<not> brace_then_fence s"
    and ws1: "\<forall>c\<in>set ws1. is_space c" and ws2: "\<forall>c\<in>set ws2. is_space c"
  shows "find_fenced (fenced ws1 s ws2) = Some s"
proof -
  from assms(1-3) obtain a where s: "s = 123 # a @ [125]" by (rule braced_shape)
  with assms(4) have a: "\<not> brace_then_fence (a @ [125])" by simp
  have "dropWhile is_space (ws1 @ s @ ws2 @ [96, 96, 96]) = s @ ws2 @ [96, 96, 96]"
    using ws1 s by (simp add: dropWhile_append2)
  then have "fenced_at (fenced ws1 s ws2) = Some s"
    using shortest_body_no_brace_fence [OF ws2 a] s
    by (simp add: fenced_at_def fenced_def str_fence)
  then show ?thesis by (simp add: fenced_def str_fence)
qed

lemma str_eq_iff [simp]: "str a = str b \<longleftrightarrow> a = b"
  by (simp add: str_def inj_map_eq_map [OF inj_of_char])

lemma classify_input_eq:
  "classify_input llm u w =
     (parse_model_output (llm (calls w) (ClassifyPrompt u)), w\<lparr>calls := calls w @ [ClassifyPrompt u]\<rparr>)"
  by (simp add: classify_input_def invoke_def)

lemma analyze_feature_eq:
  "analyze_feature llm d w =
     (parse_model_output (llm (calls w) (AnalyzePrompt (dict_get d (str ''description'') (JStr [])))),
      w\<lparr>calls := calls w @ [AnalyzePrompt (dict_get d (str ''description'') (JStr []))]\<rparr>)"
  by (simp add: analyze_feature_def invoke_def)

lemma generate_tech_layer_eq:
  "generate_tech_layer llm fa w =
     (parse_model_output (llm (calls w) (TechLayerPrompt fa)), w\<lparr>calls := calls w @ [TechLayerPrompt fa]\<rparr>)"
  by (simp add: generate_tech_layer_def invoke_def)

lemma py_in_has_key: "has_key k v \<Longrightarrow> py_in k v = Inr True"
  by (cases v) (auto simp: has_key_def)

lemma parse_general: "parse_model_output general_answer = JObj [(str ''classification'', JStr (str ''General Conversation''))]"
  by code_simp
lemma parse_feature: "parse_model_output feature_answer = JObj [(str ''classification'', JStr (str ''Feature Description''))]"
  by code_simp
lemma parse_plain: "parse_model_output (str ''no json here'') = JObj [(str ''raw_output'', JStr (str ''no json here'')), (str ''error'', JStr (str ''Failed to parse JSON''))]"
  by code_simp
lemma parse_a1: "parse_model_output (str ''{\"a\": 1}'') = JObj [(str ''a'', JInt 1)]"
  by code_simp
lemma parse_chunk1: "parse_model_output (str ''{\"chunk1\": 1}'') = JObj [(str ''chunk1'', JInt 1)]"
  by code_simp
lemma parse_list: "parse_model_output (str ''[1]'') = JArr [JInt 1]"
  by code_simp

lemmas stage_eqs = classify_input_eq analyze_feature_eq generate_tech_layer_eq

lemma parse_model_output_failure:
  assumes "json_loads (clean_text t) = None"
    and "\<And>g. search_fenced t = Some g \<Longrightarrow> json_loads (unescape g) = None"
    and "\<And>g. search_object t = Some g \<Longrightarrow> json_loads (unescape g) = None"
  shows "parse_model_output t =
           JObj [(str ''raw_output'', JStr (clean_text t)),
                 (str ''error'', JStr (str ''Failed to parse JSON''))]"
  using assms by (auto simp: parse_model_output_def Let_def split: option.splits)

lemma only_result_files_refl: "writes w' = writes w \<Longrightarrow> only_result_files w w'"
  by (simp add: only_result_files_def)

lemma only_result_files_trans:
  "only_result_files w w' \<Longrightarrow> only_result_files w' w'' \<Longrightarrow> only_result_files w w''"
  unfolding only_result_files_def by fastforce

lemma only_result_files_write:
  "only_result_files w (write_file (result_filename k) c w)"
  unfolding only_result_files_def write_file_def by auto

lemma process_user_input_frame:
  "\<exists>ps. snd (process_user_input llm u w) = w\<lparr>calls := calls w @ ps\<rparr>"
proof -
  obtain cr w1 where s1: "classify_input llm u w = (cr, w1)" by force
  obtain fa w2 where s2: "analyze_feature llm [(str ''description'', JStr u)] w1 = (fa, w2)" by force
  obtain tr w3 where s3: "generate_tech_layer llm fa w2 = (tr, w3)" by force
  have w1: "w1 = w\<lparr>calls := calls w @ [ClassifyPrompt u]\<rparr>"
    using s1 by (simp add: classify_input_eq)
  have w2: "w2 = w\<lparr>calls := calls w @ [ClassifyPrompt u, AnalyzePrompt (JStr u)]\<rparr>"
    using s2 w1 by (simp add: analyze_feature_eq dict_get_def)
  have w3: "w3 = w\<lparr>calls := calls w @ [ClassifyPrompt u, AnalyzePrompt (JStr u), TechLayerPrompt fa]\<rparr>"
    using s3 w2 by (simp add: generate_tech_layer_eq)
  have "snd (process_user_input llm u w) \<in> {w1, w2, w3}"
    using s1 s2 s3 unfolding process_user_input_def
    by (simp add: Let_def split: sum.splits bool.splits)
  with w1 w2 w3 show ?thesis by blast
qed

lemma process_user_input_writes: "writes (snd (process_user_input llm u w)) = writes w"
  using process_user_input_frame [of llm u w] by auto

lemma main_loop_frame:
  "main_loop llm con evs st = (st', b) \<Longrightarrow> only_result_files (env st) (env st')"
proof (induction evs arbitrary: st st' b rule: length_induct)
  case (1 evs)
  have IH: "\<And>ys s s' c. length ys < length evs \<Longrightarrow> main_loop llm con ys s = (s', c) \<Longrightarrow>
              only_result_files (env s) (env s')"
    using "1.IH" by blast
  show ?case
  proof (cases evs)
    case Nil
    with "1.prems" show ?thesis by (simp add: only_result_files_refl)
  next
    case (Cons e rest)
    show ?thesis
    proof (cases e)
      case Interrupt
      with Cons "1.prems" show ?thesis by (simp add: only_result_files_refl)
    next
      case Eof
      with Cons "1.prems" IH [of rest st st' b] show ?thesis by simp
    next
      case (Line l)
      let ?u = "strip l"
      show ?thesis
      proof (cases "lower ?u \<in> set [str ''quit'', str ''exit'', str ''q'']")
        case True
        with Cons Line "1.prems" show ?thesis by (simp add: only_result_files_refl)
      next
        case nq: False
        show ?thesis
        proof (cases "?u = []")
          case True
          with nq Cons Line "1.prems" IH [of rest st st' b] show ?thesis by simp
        next
          case ne: False
          define st1 where "st1 = st\<lparr>test_count := test_count st + 1\<rparr>"
          show ?thesis
          proof (cases "con (JStr ?u)")
            case False
            have "main_loop llm con rest st1 = (st', b)"
              using "1.prems" Cons Line nq ne False by (simp add: st1_def Let_def)
            from IH [OF _ this] Cons show ?thesis by (simp add: st1_def)
          next
            case pr: True
          obtain r w' where run: "process_user_input llm ?u (env st1) = (r, w')" by force
          define st2 where "st2 = st1\<lparr>env := w'\<rparr>"
          have w': "writes w' = writes (env st)"
            using process_user_input_writes [of llm ?u "env st1"] run by (simp add: st1_def)
          have step2: "only_result_files (env st) (env st2)"
            using w' by (simp add: st2_def only_result_files_refl)
          show ?thesis
          proof (cases r)
            case (Inl err)
            have "main_loop llm con rest st2 = (st', b)"
              using "1.prems" Cons Line nq ne pr run Inl by (simp add: st1_def st2_def)
            from IH [OF _ this] Cons step2 show ?thesis
              using only_result_files_trans by fastforce
          next
            case (Inr result)
            define st3 where "st3 = st2\<lparr>results := results st2 @
                                   [JObj [(str ''input'', JStr ?u), (str ''result'', result)]]\<rparr>"
            have step3: "only_result_files (env st) (env st3)"
              using step2 by (simp add: st3_def)
            note defs = st1_def st2_def st3_def Let_def
            note facts = "1.prems" Cons Line nq ne pr run Inr
            show ?thesis
            proof (cases "display con result")
              case (Inl err)
              with facts have "main_loop llm con rest st3 = (st', b)" by (simp add: defs)
              from IH [OF _ this] Cons step3 show ?thesis
                using only_result_files_trans by fastforce
            next
              case shown: (Inr u)
              show ?thesis
              proof (cases rest)
                case Nil
                with facts shown have "st' = st3" by (simp add: defs)
                with step3 show ?thesis by simp
              next
                case rest: (Cons e' evs')
                have shorter: "length evs' < length evs" using Cons rest by simp
                show ?thesis
                proof (cases e')
                  case Interrupt
                  with facts shown rest have "st' = st3" by (simp add: defs)
                  with step3 show ?thesis by simp
                next
                  case Eof
                  with facts shown rest have "main_loop llm con evs' st3 = (st', b)" by (simp add: defs)
                  from IH [OF shorter this] step3 show ?thesis
                    using only_result_files_trans by blast
                next
                  case (Line a)
                  show ?thesis
                  proof (cases "lower (strip a) \<in> set [str ''y'', str ''yes'']")
                    case False
                    with facts shown rest \<open>e' = Line a\<close>
                    have "main_loop llm con evs' st3 = (st', b)" by (simp add: defs)
                    from IH [OF shorter this] step3 show ?thesis
                      using only_result_files_trans by blast
                  next
                    case True
                    define st4 where "st4 = st3\<lparr>env := write_file (result_filename (test_count st3))
                                                    result (env st3)\<rparr>"
                    have "env st4 = write_file (result_filename (test_count st3)) result (env st3)"
                      by (simp add: st4_def)
                    then have step4: "only_result_files (env st) (env st4)"
                      using step3 only_result_files_write [of "env st3" "test_count st3" result]
                        only_result_files_trans by metis
                    from True facts shown rest \<open>e' = Line a\<close>
                    have "main_loop llm con evs' st4 = (st', b)" by (simp add: defs st4_def)
                    from IH [OF shorter this] step4 show ?thesis
                      using only_result_files_trans by blast
                  qed
                qed
              qed
            qed
          qed
          qed
        qed
      qed
    qed
  qed
qed

text \<open>Runs of the workflow with mocked models.\<close>

lemma parse_other:
  "parse_model_output (str ''{\"classification\": \"Other\"}'') =
     JObj [(str ''classification'', JStr (str ''Other''))]"
  by code_simp

lemma run_general:
  "process_user_input (scripted general_answer [] []) (str ''hello'') fresh =
     (Inr (JObj [(str ''workflow'', JStr (str ''general_conversation'')),
                 (str ''classification'', JStr (str ''General Conversation'')),
                 (str ''result'', JObj [(str ''classification'', JStr (str ''General Conversation''))])]),
      \<lparr>calls = [ClassifyPrompt (str ''hello'')], writes = []\<rparr>)"
  by (simp add: process_user_input_def stage_eqs fresh_def dict_get_def parse_general)

lemma run_other:
  "process_user_input (scripted (str ''{\"classification\": \"Other\"}'') [] []) (str ''hello'') fresh =
     (Inr (JObj [(str ''error'', JStr (str ''Unknown classification'')),
                 (str ''classification'', JStr (str ''Other''))]),
      \<lparr>calls = [ClassifyPrompt (str ''hello'')], writes = []\<rparr>)"
  by (simp add: process_user_input_def stage_eqs fresh_def dict_get_def parse_other)

lemma run_feature:
  "process_user_input (scripted feature_answer (str ''{\"a\": 1}'') (str ''{\"chunk1\": 1}''))
     (str ''a cat'') fresh =
     (Inr (JObj [(str ''workflow'', JStr (str ''feature_processing'')),
                 (str ''classification'', JStr (str ''Feature Description'')),
                 (str ''feature_analysis'', JObj [(str ''a'', JInt 1)]),
                 (str ''tech_layer_result'', JObj [(str ''chunk1'', JInt 1)])]),
      \<lparr>calls = [ClassifyPrompt (str ''a cat''), AnalyzePrompt (JStr (str ''a cat'')),
                TechLayerPrompt (JObj [(str ''a'', JInt 1)])],
       writes = []\<rparr>)"
  by (simp add: process_user_input_def stage_eqs fresh_def dict_get_def
        parse_feature parse_a1 parse_chunk1)

lemma run_analysis_fails:
  "process_user_input (scripted feature_answer (str ''no json here'') []) (str ''a cat'') fresh =
     (Inr (JObj [(str ''error'', JStr (str ''Feature analysis failed'')),
                 (str ''details'', JObj [(str ''raw_output'', JStr (str ''no json here'')),
                                         (str ''error'', JStr (str ''Failed to parse JSON''))])]),
      \<lparr>calls = [ClassifyPrompt (str ''a cat''), AnalyzePrompt (JStr (str ''a cat''))],
       writes = []\<rparr>)"
  by (simp add: process_user_input_def stage_eqs fresh_def dict_get_def parse_feature parse_plain)

lemma run_list:
  "process_user_input (scripted (str ''[1]'') [] []) (str ''hello'') fresh =
     (Inl AttributeError, \<lparr>calls = [ClassifyPrompt (str ''hello'')], writes = []\<rparr>)"
  by (simp add: process_user_input_def stage_eqs fresh_def dict_get_def parse_list)

text \<open>When every answer of the model parses to a dictionary, the workflow returns.\<close>

lemma process_user_input_returns:
  assumes "\<And>h p. \<exists>d. parse_model_output (llm h p) = JObj d"
  shows "\<exists>r. fst (process_user_input llm u w) = Inr r"
proof -
  obtain c where c: "parse_model_output (llm (calls w) (ClassifyPrompt u)) = JObj c"
    using assms by blast
  let ?w1 = "w\<lparr>calls := calls w @ [ClassifyPrompt u]\<rparr>"
  obtain a where a: "parse_model_output (llm (calls ?w1) (AnalyzePrompt (JStr u))) = JObj a"
    using assms by blast
  let ?w2 = "?w1\<lparr>calls := calls ?w1 @ [AnalyzePrompt (JStr u)]\<rparr>"
  obtain t where t: "parse_model_output (llm (calls ?w2) (TechLayerPrompt (JObj a))) = JObj t"
    using assms by blast
  from c a t show ?thesis
    by (auto simp: process_user_input_def stage_eqs dict_get_def Let_def split: bool.splits option.splits)
qed

text \<open>
  When the classification cannot be printed, the pass ends before the question whether
  to save: on a strict UTF-8 console the line \<open>y\<close> that follows is read as the next user
  input, and only the summary is written. On a console that writes everything the same
  line answers the question and the file of the result is written too.
\<close>

lemma print_failure_skips_save_question:
  "main (scripted surrogate_answer [] []) utf8_strict
        [Line (str ''hello''), Line (str ''y''), Line (str ''quit'')] fresh =
   \<lparr>calls = [ClassifyPrompt (str ''hello''), ClassifyPrompt (str ''y'')],
      writes = [(summary_filename,
                 JArr [JObj [(str ''input'', JStr (str ''hello'')),
                             (str ''result'', JObj [(str ''error'', JStr (str ''Unknown classification'')),
                                                   (str ''classification'', JStr [55296])])],
                       JObj [(str ''input'', JStr (str ''y'')),
                             (str ''result'', JObj [(str ''error'', JStr (str ''Unknown classification'')),
                                                   (str ''classification'', JStr [55296])])]])]\<rparr>"
  by code_simp

lemma print_success_asks_save_question:
  "main (scripted surrogate_answer [] []) (\<lambda>v. True)
        [Line (str ''hello''), Line (str ''y''), Line (str ''quit'')] fresh =
   \<lparr>calls = [ClassifyPrompt (str ''hello'')],
      writes = [(result_filename 1, JObj [(str ''error'', JStr (str ''Unknown classification'')),
                                                   (str ''classification'', JStr [55296])]),
                (summary_filename,
                 JArr [JObj [(str ''input'', JStr (str ''hello'')),
                             (str ''result'', JObj [(str ''error'', JStr (str ''Unknown classification'')),
                                                   (str ''classification'', JStr [55296])])]])]\<rparr>"
  by code_simp

section \<open>The claims\<close>

text \<open>
  Claim C1, as amended. Let \<open>s\<close> be a serialisation of a JSON object \<open>d\<close>: a text that
  \<open>json.loads\<close> decodes to \<open>d\<close>, that begins with an opening brace and ends with a
  closing brace. If \<open>s\<close> contains no backslash-n, no backslash-quote and no double
  backslash, and no closing brace in \<open>s\<close> is followed, after optional white space, by
  three backticks, and the response is \<open>s\<close> wrapped in a \<open>json\<close> fence with white space
  around \<open>s\<close>, then the extraction chain returns \<open>d\<close>: from the cleaned text, or, when
  \<open>s\<close> contains backslash-t and the cleaned text does not parse, from the fenced
  object of the raw text.
\<close>

theorem fenced_object_parsed:
  assumes loads: "json_loads s = Some (JObj d)"
    and shape: "s \<noteq> []" "hd s = 123" "last s = 125"
    and ws: "\<forall>c\<in>set ws1. is_space c" "\<forall>c\<in>set ws2. is_space c"
    and no_fence: "\<not> brace_then_fence s"
    and no_escape: "\<not> sublist [92, 110] s" "\<not> sublist [92, 34] s" "\<not> sublist [92, 92] s"
  shows "parse_model_output (fenced ws1 s ws2) = JObj d"
proof -
  have lex: "lexrun False s = Some False"
    by (rule json_loads_lex [OF loads])
  have no_ap: "\<not> sublist [92, 39] s"
    by (rule no_apostrophe_escape [OF lex no_escape(3)])
  have found: "search_fenced (fenced ws1 s ws2) = Some s"
    using find_fenced_serialisation [OF shape no_fence ws] by (simp add: search_fenced_eq)
  have nonempty: "fenced ws1 s ws2 \<noteq> []"
    by (simp add: fenced_def str_fence)
  have stripped: "strip s = s"
    using shape by (simp add: strip_id)
  let ?c = "replace [92, 116] [9] s"
  have keep: "\<not> sublist [92, 34] ?c" "\<not> sublist [92, 92] ?c" "\<not> sublist [92, 39] ?c"
    using replace_tab_no_new [of _ s] no_escape(2,3) no_ap by simp_all
  have cleaned: "clean_text (fenced ws1 s ws2) = ?c"
    using nonempty found stripped no_escape(1) keep
    by (simp add: clean_text_def replace_absent)
  have raw: "json_loads (unescape s) = Some (JObj d)"
    using loads no_escape no_ap by (simp add: unescape_def replace_absent)
  show ?thesis
  proof (cases "sublist [92, 116] s")
    case False
    then have "?c = s" by (simp add: replace_absent)
    with cleaned loads show ?thesis by (simp add: parse_model_output_def)
  next
    case True
    have "lexrun False ?c = None"
      by (rule tab_breaks [OF lex no_escape(3) True])
    then have "json_loads ?c = None"
      using json_loads_lex [of ?c] by (cases "json_loads ?c") auto
    with cleaned found raw show ?thesis by (simp add: parse_model_output_def)
  qed
qed

theorem fenced_object_parsed_witness:
  "json_loads (str ''{\"a\": \"x'' @ [92, 116] @ str ''y```\"}'') =
     Some (JObj [(str ''a'', JStr (str ''x'' @ [9] @ str ''y```''))])
   \<and> parse_model_output (fenced [10] (str ''{\"a\": \"x'' @ [92, 116] @ str ''y```\"}'') [10]) =
       JObj [(str ''a'', JStr (str ''x'' @ [9] @ str ''y```''))]"
proof -
  let ?s = "str ''{\"a\": \"x'' @ [92, 116] @ str ''y```\"}''"
  have loads: "json_loads ?s = Some (JObj [(str ''a'', JStr (str ''x'' @ [9] @ str ''y```''))])"
    by code_simp
  have shape: "?s \<noteq> []" "hd ?s = 123" "last ?s = 125"
    by code_simp+
  have ws: "\<forall>c\<in>set [10]. is_space c"
    by simp
  have no_fence: "\<not> brace_then_fence ?s"
    by code_simp
  have no_escape: "\<not> sublist [92, 110] ?s" "\<not> sublist [92, 34] ?s" "\<not> sublist [92, 92] ?s"
    by code_simp+
  from fenced_object_parsed [OF loads shape ws ws no_fence no_escape] loads
  show ?thesis by simp
qed

text \<open>
  Claim C1 as stated fails. A line feed, a quote and a backslash in a string are
  serialised as backslash-n, backslash-quote and double backslash; the cleaning and
  both re-extractions rewrite these into a line feed, a quote and a backslash, and
  \<open>json.loads\<close> refuses the result. A value that is a closing brace followed by three
  backticks ends the fenced block early. In all four cases the error dictionary is
  returned.
\<close>

theorem fenced_object_counterexample:
  "json_loads (str ''{\"a\": \"'' @ [92, 110] @ str ''\"}'') = Some (JObj [(str ''a'', JStr [10])])
   \<and> parse_model_output (fenced [10] (str ''{\"a\": \"'' @ [92, 110] @ str ''\"}'') [10]) =
       JObj [(str ''raw_output'', JStr (str ''{\"a\": \"'' @ [10] @ str ''\"}'')),
             (str ''error'', JStr (str ''Failed to parse JSON''))]
   \<and> json_loads (str ''{\"a\": \"'' @ [92, 34] @ str ''\"}'') = Some (JObj [(str ''a'', JStr [34])])
   \<and> parse_model_output (fenced [10] (str ''{\"a\": \"'' @ [92, 34] @ str ''\"}'') [10]) =
       JObj [(str ''raw_output'', JStr (str ''{\"a\": \"\"\"}'')),
             (str ''error'', JStr (str ''Failed to parse JSON''))]
   \<and> json_loads (str ''{\"a\": \"'' @ [92, 92] @ str ''\"}'') = Some (JObj [(str ''a'', JStr [92])])
   \<and> parse_model_output (fenced [10] (str ''{\"a\": \"'' @ [92, 92] @ str ''\"}'') [10]) =
       JObj [(str ''raw_output'', JStr (str ''{\"a\": \"'' @ [92] @ str ''\"}'')),
             (str ''error'', JStr (str ''Failed to parse JSON''))]
   \<and> json_loads (str ''{\"a\": \"}```\"}'') = Some (JObj [(str ''a'', JStr (str ''}```''))])
   \<and> parse_model_output (fenced [10] (str ''{\"a\": \"}```\"}'') [10]) =
       JObj [(str ''raw_output'', JStr (str ''{\"a\": \"}'')),
             (str ''error'', JStr (str ''Failed to parse JSON''))]"
  by code_simp

text \<open>
  Claim C2, as amended. \<open>process_user_input\<close> sends the classification prompt first. If
  the test for \<open>error\<close> in the classification result is false and the classification
  is \<open>General Conversation\<close>, it sends nothing more and returns the workflow
  dictionary that carries the classification result. If the test is false and the
  classification is \<open>Feature Description\<close>, it calls \<open>analyze_feature\<close> on the
  dictionary with the user input as \<open>description\<close>, and then, if the test for \<open>error\<close>
  in the analysis is false, \<open>generate_tech_layer\<close> on the analysis; otherwise it stops
  after the analysis. In every other case it sends nothing after the classification
  prompt.
\<close>

theorem workflow_calls:
  assumes "classify_input llm user_input w = (cr, w1)"
    and "analyze_feature llm [(str ''description'', JStr user_input)] w1 = (fa, w2)"
    and "generate_tech_layer llm fa w2 = (tr, w3)"
  shows
    "prefix (calls w @ [ClassifyPrompt user_input]) (calls (snd (process_user_input llm user_input w)))
     \<and>
     (py_in (str ''error'') cr = Inr False \<and>
      py_get cr (str ''classification'') (JStr []) = Inr (JStr (str ''General Conversation'')) \<longrightarrow>
        process_user_input llm user_input w =
          (Inr (JObj [(str ''workflow'', JStr (str ''general_conversation'')),
                      (str ''classification'', JStr (str ''General Conversation'')),
                      (str ''result'', cr)]), w1)
        \<and> calls w1 = calls w @ [ClassifyPrompt user_input])
     \<and>
     (py_in (str ''error'') cr = Inr False \<and>
      py_get cr (str ''classification'') (JStr []) = Inr (JStr (str ''Feature Description'')) \<longrightarrow>
        (if py_in (str ''error'') fa = Inr False
         then snd (process_user_input llm user_input w) = w3 \<and>
              calls w3 = calls w @ [ClassifyPrompt user_input, AnalyzePrompt (JStr user_input),
                                    TechLayerPrompt fa]
         else snd (process_user_input llm user_input w) = w2 \<and>
              calls w2 = calls w @ [ClassifyPrompt user_input, AnalyzePrompt (JStr user_input)]))
     \<and>
     (\<not> (py_in (str ''error'') cr = Inr False \<and>
         py_get cr (str ''classification'') (JStr []) = Inr (JStr (str ''Feature Description''))) \<longrightarrow>
        snd (process_user_input llm user_input w) = w1 \<and>
        calls w1 = calls w @ [ClassifyPrompt user_input])"
proof -
  have w1: "w1 = w\<lparr>calls := calls w @ [ClassifyPrompt user_input]\<rparr>"
    using assms(1) by (simp add: classify_input_eq)
  have w2: "w2 = w1\<lparr>calls := calls w1 @ [AnalyzePrompt (JStr user_input)]\<rparr>"
    using assms(2) by (simp add: analyze_feature_eq dict_get_def)
  have w3: "w3 = w2\<lparr>calls := calls w2 @ [TechLayerPrompt fa]\<rparr>"
    using assms(3) by (simp add: generate_tech_layer_eq)
  have c1: "calls w1 = calls w @ [ClassifyPrompt user_input]" using w1 by simp
  have c2: "calls w2 = calls w @ [ClassifyPrompt user_input, AnalyzePrompt (JStr user_input)]"
    using w1 w2 by simp
  have c3: "calls w3 = calls w @ [ClassifyPrompt user_input, AnalyzePrompt (JStr user_input),
                                    TechLayerPrompt fa]"
    using w1 w2 w3 by simp
  have final: "snd (process_user_input llm user_input w) \<in> {w1, w2, w3}"
    using assms unfolding process_user_input_def
    by (simp add: Let_def split: sum.splits bool.splits)
  have first: "prefix (calls w @ [ClassifyPrompt user_input])
                 (calls (snd (process_user_input llm user_input w)))"
    using final c1 c2 c3 by (auto simp: prefix_def)
  have general: "py_in (str ''error'') cr = Inr False \<and>
      py_get cr (str ''classification'') (JStr []) = Inr (JStr (str ''General Conversation'')) \<longrightarrow>
        process_user_input llm user_input w =
          (Inr (JObj [(str ''workflow'', JStr (str ''general_conversation'')),
                      (str ''classification'', JStr (str ''General Conversation'')),
                      (str ''result'', cr)]), w1)"
    using assms(1) by (simp add: process_user_input_def)
  have feature: "py_in (str ''error'') cr = Inr False \<and>
      py_get cr (str ''classification'') (JStr []) = Inr (JStr (str ''Feature Description'')) \<longrightarrow>
        (if py_in (str ''error'') fa = Inr False
         then snd (process_user_input llm user_input w) = w3
         else snd (process_user_input llm user_input w) = w2)"
    using assms by (simp add: process_user_input_def split: sum.splits bool.splits)
  have other: "\<not> (py_in (str ''error'') cr = Inr False \<and>
         py_get cr (str ''classification'') (JStr []) = Inr (JStr (str ''Feature Description''))) \<longrightarrow>
        snd (process_user_input llm user_input w) = w1"
    using assms(1) by (auto simp: process_user_input_def split: sum.splits bool.splits)
  from first general feature other c1 c2 c3 show ?thesis by simp
qed

theorem workflow_calls_witness:
  "process_user_input (scripted general_answer [] []) (str ''hello'') fresh =
     (Inr (JObj [(str ''workflow'', JStr (str ''general_conversation'')),
                 (str ''classification'', JStr (str ''General Conversation'')),
                 (str ''result'', JObj [(str ''classification'', JStr (str ''General Conversation''))])]),
      \<lparr>calls = [ClassifyPrompt (str ''hello'')], writes = []\<rparr>)
   \<and> calls (snd (process_user_input
                   (scripted feature_answer (str ''{\"a\": 1}'') (str ''{\"chunk1\": 1}''))
                   (str ''a cat'') fresh)) =
       [ClassifyPrompt (str ''a cat''), AnalyzePrompt (JStr (str ''a cat'')),
        TechLayerPrompt (JObj [(str ''a'', JInt 1)])]"
proof -
  let ?g = "scripted general_answer [] []"
  let ?w1 = "\<lparr>calls = [ClassifyPrompt (str ''hello'')], writes = []\<rparr>"
  have g1: "classify_input ?g (str ''hello'') fresh =
              (JObj [(str ''classification'', JStr (str ''General Conversation''))], ?w1)"
    by (simp add: classify_input_eq fresh_def parse_general)
  have g2: "analyze_feature ?g [(str ''description'', JStr (str ''hello''))] ?w1 =
              (fst (analyze_feature ?g [(str ''description'', JStr (str ''hello''))] ?w1),
               snd (analyze_feature ?g [(str ''description'', JStr (str ''hello''))] ?w1))"
    by simp
  have g3: "generate_tech_layer ?g
              (fst (analyze_feature ?g [(str ''description'', JStr (str ''hello''))] ?w1))
              (snd (analyze_feature ?g [(str ''description'', JStr (str ''hello''))] ?w1)) =
            (fst (generate_tech_layer ?g
              (fst (analyze_feature ?g [(str ''description'', JStr (str ''hello''))] ?w1))
              (snd (analyze_feature ?g [(str ''description'', JStr (str ''hello''))] ?w1))),
             snd (generate_tech_layer ?g
              (fst (analyze_feature ?g [(str ''description'', JStr (str ''hello''))] ?w1))
              (snd (analyze_feature ?g [(str ''description'', JStr (str ''hello''))] ?w1))))"
    by simp
  have general: "process_user_input ?g (str ''hello'') fresh =
     (Inr (JObj [(str ''workflow'', JStr (str ''general_conversation'')),
                 (str ''classification'', JStr (str ''General Conversation'')),
                 (str ''result'', JObj [(str ''classification'', JStr (str ''General Conversation''))])]),
      ?w1)"
    using workflow_calls [OF g1 g2 g3] by (simp add: dict_get_def)
  let ?f = "scripted feature_answer (str ''{\"a\": 1}'') (str ''{\"chunk1\": 1}'')"
  let ?v1 = "\<lparr>calls = [ClassifyPrompt (str ''a cat'')], writes = []\<rparr>"
  let ?v2 = "\<lparr>calls = [ClassifyPrompt (str ''a cat''), AnalyzePrompt (JStr (str ''a cat''))],
             writes = []\<rparr>"
  let ?v3 = "\<lparr>calls = [ClassifyPrompt (str ''a cat''), AnalyzePrompt (JStr (str ''a cat'')),
                      TechLayerPrompt (JObj [(str ''a'', JInt 1)])],
             writes = []\<rparr>"
  have f1: "classify_input ?f (str ''a cat'') fresh =
              (JObj [(str ''classification'', JStr (str ''Feature Description''))], ?v1)"
    by (simp add: classify_input_eq fresh_def parse_feature)
  have f2: "analyze_feature ?f [(str ''description'', JStr (str ''a cat''))] ?v1 =
              (JObj [(str ''a'', JInt 1)], ?v2)"
    by (simp add: analyze_feature_eq dict_get_def parse_a1)
  have f3: "generate_tech_layer ?f (JObj [(str ''a'', JInt 1)]) ?v2 =
              (JObj [(str ''chunk1'', JInt 1)], ?v3)"
    by (simp add: generate_tech_layer_eq parse_chunk1)
  have feature: "snd (process_user_input ?f (str ''a cat'') fresh) = ?v3"
    using workflow_calls [OF f1 f2 f3] by (simp add: dict_get_def)
  from general feature show ?thesis by simp
qed

text \<open>
  Claim C2 as stated fails: with the classification \<open>Feature Description\<close> and an
  analysis answer that cannot be parsed, one further call is made, not two.
\<close>

theorem feature_branch_one_call_counterexample:
  "py_get (fst (classify_input (scripted feature_answer (str ''no json here'') []) (str ''a cat'') fresh))
      (str ''classification'') (JStr []) = Inr (JStr (str ''Feature Description''))
   \<and> calls (snd (process_user_input (scripted feature_answer (str ''no json here'') []) (str ''a cat'') fresh))
       = [ClassifyPrompt (str ''a cat''), AnalyzePrompt (JStr (str ''a cat''))]"
  by (simp add: run_analysis_fails classify_input_eq dict_get_def parse_feature)

text \<open>
  Claim C3, as amended. When \<open>process_user_input\<close> completes the feature-processing
  workflow, its \<open>tech_layer_result\<close> is the value that the extraction chain parsed from
  the answer to the third prompt, and the test for \<open>error\<close> in it is false. The program
  asks for eight chunks in the prompt and does not check the keys of the answer.
\<close>

theorem tech_layer_result_unchecked:
  assumes "classify_input llm user_input w = (cr, w1)"
    and "analyze_feature llm [(str ''description'', JStr user_input)] w1 = (fa, w2)"
    and "generate_tech_layer llm fa w2 = (tr, w3)"
    and "fst (process_user_input llm user_input w) = Inr (JObj d)"
    and "map_of d (str ''workflow'') = Some (JStr (str ''feature_processing''))"
  shows "map_of d (str ''tech_layer_result'') = Some tr
         \<and> tr = parse_model_output (llm (calls w2) (TechLayerPrompt fa))
         \<and> py_in (str ''error'') tr = Inr False"
  using assms unfolding process_user_input_def
  by (auto simp: Let_def generate_tech_layer_eq split: prod.splits sum.splits bool.splits if_splits)

theorem tech_layer_result_unchecked_witness:
  "fst (process_user_input (scripted feature_answer (str ''{\"a\": 1}'') (str ''{\"chunk1\": 1}''))
          (str ''a cat'') fresh) =
     Inr (JObj [(str ''workflow'', JStr (str ''feature_processing'')),
                (str ''classification'', JStr (str ''Feature Description'')),
                (str ''feature_analysis'', JObj [(str ''a'', JInt 1)]),
                (str ''tech_layer_result'', JObj [(str ''chunk1'', JInt 1)])])
   \<and> JObj [(str ''chunk1'', JInt 1)] = parse_model_output (str ''{\"chunk1\": 1}'')
   \<and> py_in (str ''error'') (JObj [(str ''chunk1'', JInt 1)]) = Inr False"
proof -
  let ?f = "scripted feature_answer (str ''{\"a\": 1}'') (str ''{\"chunk1\": 1}'')"
  let ?v1 = "\<lparr>calls = [ClassifyPrompt (str ''a cat'')], writes = []\<rparr>"
  let ?v2 = "\<lparr>calls = [ClassifyPrompt (str ''a cat''), AnalyzePrompt (JStr (str ''a cat''))],
             writes = []\<rparr>"
  let ?v3 = "\<lparr>calls = [ClassifyPrompt (str ''a cat''), AnalyzePrompt (JStr (str ''a cat'')),
                      TechLayerPrompt (JObj [(str ''a'', JInt 1)])],
             writes = []\<rparr>"
  let ?d = "[(str ''workflow'', JStr (str ''feature_processing'')),
             (str ''classification'', JStr (str ''Feature Description'')),
             (str ''feature_analysis'', JObj [(str ''a'', JInt 1)]),
             (str ''tech_layer_result'', JObj [(str ''chunk1'', JInt 1)])]"
  have f1: "classify_input ?f (str ''a cat'') fresh =
              (JObj [(str ''classification'', JStr (str ''Feature Description''))], ?v1)"
    by (simp add: classify_input_eq fresh_def parse_feature)
  have f2: "analyze_feature ?f [(str ''description'', JStr (str ''a cat''))] ?v1 =
              (JObj [(str ''a'', JInt 1)], ?v2)"
    by (simp add: analyze_feature_eq dict_get_def parse_a1)
  have f3: "generate_tech_layer ?f (JObj [(str ''a'', JInt 1)]) ?v2 =
              (JObj [(str ''chunk1'', JInt 1)], ?v3)"
    by (simp add: generate_tech_layer_eq parse_chunk1)
  have run: "fst (process_user_input ?f (str ''a cat'') fresh) = Inr (JObj ?d)"
    by (simp add: run_feature)
  have wf: "map_of ?d (str ''workflow'') = Some (JStr (str ''feature_processing''))"
    by simp
  from tech_layer_result_unchecked [OF f1 f2 f3 run wf] run show ?thesis
    by (simp add: parse_chunk1)
qed

text \<open>
  Claim C3 as stated fails: the workflow completes with a \<open>tech_layer_result\<close> whose
  only key is \<open>chunk1\<close>.
\<close>

theorem tech_layer_not_eight_chunks_counterexample:
  "fst (process_user_input (scripted feature_answer (str ''{\"a\": 1}'') (str ''{\"chunk1\": 1}''))
          (str ''a cat'') fresh) =
     Inr (JObj [(str ''workflow'', JStr (str ''feature_processing'')),
                (str ''classification'', JStr (str ''Feature Description'')),
                (str ''feature_analysis'', JObj [(str ''a'', JInt 1)]),
                (str ''tech_layer_result'', JObj [(str ''chunk1'', JInt 1)])])
   \<and> fst ` set [(str ''chunk1'', JInt 1)] \<noteq>
       {str ''chunk1'', str ''chunk2'', str ''chunk3'', str ''chunk4'',
        str ''chunk5'', str ''chunk6'', str ''chunk7'', str ''chunk8''}"
  by (simp add: run_feature)

text \<open>
  Claim C4. Every result of \<open>process_user_input\<close> without the key \<open>error\<close> carries the
  classification \<open>General Conversation\<close> or \<open>Feature Description\<close>, and when the
  classifier returns a dictionary without \<open>error\<close> whose classification (the empty
  string if the key is missing) is neither of the two, the result is the error
  dictionary for an unknown classification.
\<close>

theorem classification_two_categories:
  "(fst (process_user_input llm user_input w) = Inr r \<and> \<not> has_key (str ''error'') r \<longrightarrow>
      (\<exists>d. r = JObj d \<and>
           (map_of d (str ''classification'') = Some (JStr (str ''General Conversation'')) \<or>
            map_of d (str ''classification'') = Some (JStr (str ''Feature Description'')))))
   \<and>
   (fst (classify_input llm user_input w) = JObj c \<and> str ''error'' \<notin> fst ` set c \<and>
    dict_get c (str ''classification'') (JStr []) = v \<and>
    v \<noteq> JStr (str ''General Conversation'') \<and> v \<noteq> JStr (str ''Feature Description'') \<longrightarrow>
      fst (process_user_input llm user_input w) =
        Inr (JObj [(str ''error'', JStr (str ''Unknown classification'')),
                   (str ''classification'', v)]))"
  unfolding process_user_input_def
  by (auto simp: Let_def has_key_def split: prod.splits sum.splits bool.splits if_splits)

theorem classification_two_categories_witness:
  "map_of [(str ''workflow'', JStr (str ''general_conversation'')),
           (str ''classification'', JStr (str ''General Conversation'')),
           (str ''result'', JObj [(str ''classification'', JStr (str ''General Conversation''))])]
      (str ''classification'') = Some (JStr (str ''General Conversation''))
   \<and> fst (process_user_input (scripted (str ''{\"classification\": \"Other\"}'') [] [])
            (str ''hello'') fresh) =
       Inr (JObj [(str ''error'', JStr (str ''Unknown classification'')),
                  (str ''classification'', JStr (str ''Other''))])"
proof -
  let ?r = "JObj [(str ''workflow'', JStr (str ''general_conversation'')),
                  (str ''classification'', JStr (str ''General Conversation'')),
                  (str ''result'', JObj [(str ''classification'', JStr (str ''General Conversation''))])]"
  have run: "fst (process_user_input (scripted general_answer [] []) (str ''hello'') fresh) = Inr ?r"
    by (simp add: run_general)
  have no_error: "\<not> has_key (str ''error'') ?r"
    by (simp add: has_key_def)
  have first: "map_of [(str ''workflow'', JStr (str ''general_conversation'')),
           (str ''classification'', JStr (str ''General Conversation'')),
           (str ''result'', JObj [(str ''classification'', JStr (str ''General Conversation''))])]
      (str ''classification'') = Some (JStr (str ''General Conversation''))"
    using classification_two_categories
            [of "scripted general_answer [] []" "str ''hello''" fresh ?r] run no_error
    by simp
  let ?o = "scripted (str ''{\"classification\": \"Other\"}'') [] []"
  have cls: "fst (classify_input ?o (str ''hello'') fresh) =
               JObj [(str ''classification'', JStr (str ''Other''))]"
    by (simp add: classify_input_eq parse_other)
  have second: "fst (process_user_input ?o (str ''hello'') fresh) =
       Inr (JObj [(str ''error'', JStr (str ''Unknown classification'')),
                  (str ''classification'', JStr (str ''Other''))])"
    using classification_two_categories
            [of ?o "str ''hello''" fresh _ "[(str ''classification'', JStr (str ''Other''))]"
                "JStr (str ''Other'')"] cls
    by (simp add: dict_get_def)
  from first second show ?thesis by simp
qed

text \<open>
  Claim C5. The pipeline short-circuits. If the result of \<open>classify_input\<close> has the key
  \<open>error\<close>, \<open>process_user_input\<close> returns the dictionary with the keys \<open>error\<close> and
  \<open>details\<close>, the latter holding that result, and only the classification prompt has
  been sent. If the analysis is reached and its result has the key \<open>error\<close>, the
  dictionary with \<open>error\<close> and \<open>details\<close> (the analysis result) is returned and the
  technical layer is not called. If the technical layer is reached and its result has
  the key \<open>error\<close>, the dictionary with \<open>error\<close> and \<open>details\<close> (its result) is
  returned.
\<close>

theorem short_circuit:
  assumes "classify_input llm user_input w = (cr, w1)"
    and "analyze_feature llm [(str ''description'', JStr user_input)] w1 = (fa, w2)"
    and "generate_tech_layer llm fa w2 = (tr, w3)"
  shows
   "(has_key (str ''error'') cr \<longrightarrow>
       process_user_input llm user_input w =
         (Inr (JObj [(str ''error'', JStr (str ''Classification failed'')), (str ''details'', cr)]), w1)
       \<and> calls w1 = calls w @ [ClassifyPrompt user_input])
    \<and>
    (py_in (str ''error'') cr = Inr False \<and>
     py_get cr (str ''classification'') (JStr []) = Inr (JStr (str ''Feature Description'')) \<and>
     has_key (str ''error'') fa \<longrightarrow>
       process_user_input llm user_input w =
         (Inr (JObj [(str ''error'', JStr (str ''Feature analysis failed'')), (str ''details'', fa)]), w2)
       \<and> calls w2 = calls w @ [ClassifyPrompt user_input, AnalyzePrompt (JStr user_input)])
    \<and>
    (py_in (str ''error'') cr = Inr False \<and>
     py_get cr (str ''classification'') (JStr []) = Inr (JStr (str ''Feature Description'')) \<and>
     py_in (str ''error'') fa = Inr False \<and>
     has_key (str ''error'') tr \<longrightarrow>
       process_user_input llm user_input w =
         (Inr (JObj [(str ''error'', JStr (str ''Tech layer failed'')), (str ''details'', tr)]), w3))"
proof (intro conjI impI)
  assume "has_key (str ''error'') cr"
  then show "process_user_input llm user_input w =
         (Inr (JObj [(str ''error'', JStr (str ''Classification failed'')), (str ''details'', cr)]), w1)"
    using assms(1) by (simp add: process_user_input_def py_in_has_key)
  show "calls w1 = calls w @ [ClassifyPrompt user_input]"
    using assms(1) by (auto simp: classify_input_eq)
next
  assume "py_in (str ''error'') cr = Inr False \<and>
     py_get cr (str ''classification'') (JStr []) = Inr (JStr (str ''Feature Description'')) \<and>
     has_key (str ''error'') fa"
  then show "process_user_input llm user_input w =
         (Inr (JObj [(str ''error'', JStr (str ''Feature analysis failed'')), (str ''details'', fa)]), w2)"
    using assms(1,2) by (simp add: process_user_input_def py_in_has_key)
  show "calls w2 = calls w @ [ClassifyPrompt user_input, AnalyzePrompt (JStr user_input)]"
    using assms(1,2) by (auto simp: classify_input_eq analyze_feature_eq dict_get_def)
next
  assume "py_in (str ''error'') cr = Inr False \<and>
     py_get cr (str ''classification'') (JStr []) = Inr (JStr (str ''Feature Description'')) \<and>
     py_in (str ''error'') fa = Inr False \<and>
     has_key (str ''error'') tr"
  then show "process_user_input llm user_input w =
         (Inr (JObj [(str ''error'', JStr (str ''Tech layer failed'')), (str ''details'', tr)]), w3)"
    using assms by (simp add: process_user_input_def py_in_has_key)
qed

theorem short_circuit_witness:
  "process_user_input (scripted (str ''no json here'') [] []) (str ''a cat'') fresh =
     (Inr (JObj [(str ''error'', JStr (str ''Classification failed'')),
                 (str ''details'', JObj [(str ''raw_output'', JStr (str ''no json here'')),
                                         (str ''error'', JStr (str ''Failed to parse JSON''))])]),
      \<lparr>calls = [ClassifyPrompt (str ''a cat'')], writes = []\<rparr>)
   \<and> process_user_input (scripted feature_answer (str ''no json here'') []) (str ''a cat'') fresh =
     (Inr (JObj [(str ''error'', JStr (str ''Feature analysis failed'')),
                 (str ''details'', JObj [(str ''raw_output'', JStr (str ''no json here'')),
                                         (str ''error'', JStr (str ''Failed to parse JSON''))])]),
      \<lparr>calls = [ClassifyPrompt (str ''a cat''), AnalyzePrompt (JStr (str ''a cat''))],
       writes = []\<rparr>)
   \<and> process_user_input (scripted feature_answer (str ''{\"a\": 1}'') (str ''no json here''))
       (str ''a cat'') fresh =
     (Inr (JObj [(str ''error'', JStr (str ''Tech layer failed'')),
                 (str ''details'', JObj [(str ''raw_output'', JStr (str ''no json here'')),
                                         (str ''error'', JStr (str ''Failed to parse JSON''))])]),
      \<lparr>calls = [ClassifyPrompt (str ''a cat''), AnalyzePrompt (JStr (str ''a cat'')),
                TechLayerPrompt (JObj [(str ''a'', JInt 1)])],
       writes = []\<rparr>)"
proof -
  let ?failed = "JObj [(str ''raw_output'', JStr (str ''no json here'')),
                       (str ''error'', JStr (str ''Failed to parse JSON''))]"
  let ?v1 = "\<lparr>calls = [ClassifyPrompt (str ''a cat'')], writes = []\<rparr>"
  let ?v2 = "\<lparr>calls = [ClassifyPrompt (str ''a cat''), AnalyzePrompt (JStr (str ''a cat''))],
             writes = []\<rparr>"
  let ?v3 = "\<lparr>calls = [ClassifyPrompt (str ''a cat''), AnalyzePrompt (JStr (str ''a cat'')),
                      TechLayerPrompt (JObj [(str ''a'', JInt 1)])],
             writes = []\<rparr>"
  have failed: "has_key (str ''error'') ?failed"
    by (simp add: has_key_def)
  let ?a = "scripted (str ''no json here'') [] []"
  have a1: "classify_input ?a (str ''a cat'') fresh = (?failed, ?v1)"
    by (simp add: classify_input_eq fresh_def parse_plain)
  have a2: "analyze_feature ?a [(str ''description'', JStr (str ''a cat''))] ?v1 =
              (fst (analyze_feature ?a [(str ''description'', JStr (str ''a cat''))] ?v1),
               snd (analyze_feature ?a [(str ''description'', JStr (str ''a cat''))] ?v1))"
    by simp
  have a3: "generate_tech_layer ?a
              (fst (analyze_feature ?a [(str ''description'', JStr (str ''a cat''))] ?v1))
              (snd (analyze_feature ?a [(str ''description'', JStr (str ''a cat''))] ?v1)) =
            (fst (generate_tech_layer ?a
              (fst (analyze_feature ?a [(str ''description'', JStr (str ''a cat''))] ?v1))
              (snd (analyze_feature ?a [(str ''description'', JStr (str ''a cat''))] ?v1))),
             snd (generate_tech_layer ?a
              (fst (analyze_feature ?a [(str ''description'', JStr (str ''a cat''))] ?v1))
              (snd (analyze_feature ?a [(str ''description'', JStr (str ''a cat''))] ?v1))))"
    by simp
  have first: "process_user_input ?a (str ''a cat'') fresh =
      (Inr (JObj [(str ''error'', JStr (str ''Classification failed'')), (str ''details'', ?failed)]),
       ?v1)"
    using short_circuit [OF a1 a2 a3] failed by simp
  let ?b = "scripted feature_answer (str ''no json here'') []"
  have b1: "classify_input ?b (str ''a cat'') fresh =
              (JObj [(str ''classification'', JStr (str ''Feature Description''))], ?v1)"
    by (simp add: classify_input_eq fresh_def parse_feature)
  have b2: "analyze_feature ?b [(str ''description'', JStr (str ''a cat''))] ?v1 = (?failed, ?v2)"
    by (simp add: analyze_feature_eq dict_get_def parse_plain)
  have b3: "generate_tech_layer ?b ?failed ?v2 =
              (fst (generate_tech_layer ?b ?failed ?v2), snd (generate_tech_layer ?b ?failed ?v2))"
    by simp
  have second: "process_user_input ?b (str ''a cat'') fresh =
      (Inr (JObj [(str ''error'', JStr (str ''Feature analysis failed'')), (str ''details'', ?failed)]),
       ?v2)"
    using short_circuit [OF b1 b2 b3] failed by (simp add: dict_get_def)
  let ?c = "scripted feature_answer (str ''{\"a\": 1}'') (str ''no json here'')"
  have c1: "classify_input ?c (str ''a cat'') fresh =
              (JObj [(str ''classification'', JStr (str ''Feature Description''))], ?v1)"
    by (simp add: classify_input_eq fresh_def parse_feature)
  have c2: "analyze_feature ?c [(str ''description'', JStr (str ''a cat''))] ?v1 =
              (JObj [(str ''a'', JInt 1)], ?v2)"
    by (simp add: analyze_feature_eq dict_get_def parse_a1)
  have c3: "generate_tech_layer ?c (JObj [(str ''a'', JInt 1)]) ?v2 = (?failed, ?v3)"
    by (simp add: generate_tech_layer_eq parse_plain)
  have third: "process_user_input ?c (str ''a cat'') fresh =
      (Inr (JObj [(str ''error'', JStr (str ''Tech layer failed'')), (str ''details'', ?failed)]),
       ?v3)"
    using short_circuit [OF c1 c2 c3] failed by (simp add: dict_get_def)
  from first second third show ?thesis by simp
qed

text \<open>
  Claim C6. \<open>clean_text\<close> is the sequence of steps that the specification gives: the
  object of the first fenced block if there is one; otherwise the fence markers are
  deleted and the span from the first opening brace to the last closing brace is kept
  if there is one; then leading and trailing white space is removed; then
  backslash-n, backslash-t, backslash-quote, double backslash and
  backslash-apostrophe are replaced, in this order.
\<close>

theorem clean_text_is_spec: "clean_text text = clean_text_spec text"
proof (cases "text = []")
  case True
  then show ?thesis
    by (simp add: clean_text_def clean_text_spec_def brace_span_def str_fence)
next
  case False
  then show ?thesis
    unfolding clean_text_def clean_text_spec_def search_fenced_eq search_braces_eq
    by (simp add: Let_def)
qed

theorem clean_text_is_spec_witness:
  "clean_text (str ''Here: {\"a\": \"b'' @ [92, 110] @ str ''\"} ok'') =
     str ''{\"a\": \"b'' @ [10] @ str ''\"}''
   \<and> clean_text_spec (str ''Here: {\"a\": \"b'' @ [92, 110] @ str ''\"} ok'') =
     str ''{\"a\": \"b'' @ [10] @ str ''\"}''"
proof -
  have "clean_text_spec (str ''Here: {\"a\": \"b'' @ [92, 110] @ str ''\"} ok'') =
          str ''{\"a\": \"b'' @ [10] @ str ''\"}''"
    by code_simp
  with clean_text_is_spec [of "str ''Here: {\"a\": \"b'' @ [92, 110] @ str ''\"} ok''"]
  show ?thesis by simp
qed

text \<open>
  Claim C7. The three stages and \<open>process_user_input\<close> change nothing of the state but
  the list of prompts sent to the model, to which they append: they write no file. In
  a run of the whole program, whatever the model answers, whatever is typed and
  whatever the console can print, files
  are only added, and each added file is \<open>all_workflow_results.json\<close> or
  \<open>workflow_result_k.json\<close> for some number \<open>k\<close>.
\<close>

theorem only_flat_file_writes:
  "(\<exists>ps. snd (classify_input llm user_input w) = w\<lparr>calls := calls w @ ps\<rparr>)
   \<and> (\<exists>ps. snd (analyze_feature llm feature_input w) = w\<lparr>calls := calls w @ ps\<rparr>)
   \<and> (\<exists>ps. snd (generate_tech_layer llm feature_analysis w) = w\<lparr>calls := calls w @ ps\<rparr>)
   \<and> (\<exists>ps. snd (process_user_input llm user_input w) = w\<lparr>calls := calls w @ ps\<rparr>)
   \<and> (\<exists>ws. writes (main llm con evs w) = writes w @ ws \<and>
            (\<forall>(name, content)\<in>set ws.
               name = summary_filename \<or> (\<exists>k. name = result_filename k)))"
proof (intro conjI)
  show "\<exists>ps. snd (classify_input llm user_input w) = w\<lparr>calls := calls w @ ps\<rparr>"
    unfolding classify_input_eq by (rule exI [of _ "[ClassifyPrompt user_input]"]) simp
  show "\<exists>ps. snd (analyze_feature llm feature_input w) = w\<lparr>calls := calls w @ ps\<rparr>"
    unfolding analyze_feature_eq
    by (rule exI [of _ "[AnalyzePrompt (dict_get feature_input (str ''description'') (JStr []))]"])
       simp
  show "\<exists>ps. snd (generate_tech_layer llm feature_analysis w) = w\<lparr>calls := calls w @ ps\<rparr>"
    unfolding generate_tech_layer_eq
    by (rule exI [of _ "[TechLayerPrompt feature_analysis]"]) simp
  show "\<exists>ps. snd (process_user_input llm user_input w) = w\<lparr>calls := calls w @ ps\<rparr>"
    by (rule process_user_input_frame)
  show "\<exists>ws. writes (main llm con evs w) = writes w @ ws \<and>
            (\<forall>(name, content)\<in>set ws.
               name = summary_filename \<or> (\<exists>k. name = result_filename k))"
  proof -
    obtain st stopped
      where loop: "main_loop llm con evs \<lparr>results = [], test_count = 0, env = w\<rparr> = (st, stopped)"
      by force
    from main_loop_frame [OF loop]
    obtain ws where ws: "writes (env st) = writes w @ ws"
      "\<forall>(name, content)\<in>set ws. \<exists>k. name = result_filename k"
      by (auto simp: only_result_files_def)
    show ?thesis
    proof (cases "stopped \<and> results st \<noteq> []")
      case True
      then have "writes (main llm con evs w) = writes w @ (ws @ [(summary_filename, JArr (results st))])"
        using loop ws(1) by (simp add: main_def write_file_def)
      moreover have "\<forall>(name, content)\<in>set (ws @ [(summary_filename, JArr (results st))]).
                       name = summary_filename \<or> (\<exists>k. name = result_filename k)"
        using ws(2) by auto
      ultimately show ?thesis by blast
    next
      case False
      then have "writes (main llm con evs w) = writes w @ ws"
        using loop ws(1) by (auto simp: main_def)
      moreover have "\<forall>(name, content)\<in>set ws.
                       name = summary_filename \<or> (\<exists>k. name = result_filename k)"
        using ws(2) by auto
      ultimately show ?thesis by blast
    qed
  qed
qed

theorem only_flat_file_writes_witness:
  "map fst (writes (main (scripted general_answer [] []) utf8_strict
                      [Line (str '' hello ''), Line (str ''Y''), Line (str ''Quit'')] fresh)) =
     [result_filename 1, summary_filename]
   \<and> (\<exists>ws. writes (main (scripted general_answer [] []) utf8_strict
                      [Line (str '' hello ''), Line (str ''Y''), Line (str ''Quit'')] fresh) =
            writes fresh @ ws \<and> ws \<noteq> [])"
proof -
  let ?run = "main (scripted general_answer [] []) utf8_strict
                [Line (str '' hello ''), Line (str ''Y''), Line (str ''Quit'')] fresh"
  have names: "map fst (writes ?run) = [result_filename 1, summary_filename]"
    by code_simp
  from only_flat_file_writes
         [of "scripted general_answer [] []" "[]" fresh "[]" JNull utf8_strict
             "[Line (str '' hello ''), Line (str ''Y''), Line (str ''Quit'')]"]
  obtain ws where ws: "writes ?run = writes fresh @ ws"
    by blast
  have "ws \<noteq> []"
  proof
    assume "ws = []"
    with ws have "writes ?run = []" by (simp add: fresh_def)
    with names show False by simp
  qed
  with ws names show ?thesis by blast
qed

text \<open>
  Claim C8 fails on the code. A response that is a JSON array makes each stage return
  a list, not a dictionary, and \<open>process_user_input\<close> then raises \<open>AttributeError\<close> on
  \<open>.get\<close>.
\<close>

theorem stage_returns_list:
  "fst (classify_input (scripted (str ''[1]'') [] []) (str ''hello'') fresh) = JArr [JInt 1]
   \<and> fst (analyze_feature (scripted [] (str ''[1]'') [])
            [(str ''description'', JStr (str ''hello''))] fresh) = JArr [JInt 1]
   \<and> fst (generate_tech_layer (scripted [] [] (str ''[1]'')) (JObj []) fresh) = JArr [JInt 1]
   \<and> fst (process_user_input (scripted (str ''[1]'') [] []) (str ''hello'') fresh) =
       Inl AttributeError"
  by (simp add: run_list stage_eqs dict_get_def parse_list)

text \<open>
  Claim C9. \<open>analyze_feature\<close> depends on its input dictionary only through the value of
  \<open>description\<close>, the empty string standing for a missing key: with the same model and
  the same state, two dictionaries with equal values there give equal results.
\<close>

theorem analyze_feature_description_only:
  "dict_get d1 (str ''description'') (JStr []) = dict_get d2 (str ''description'') (JStr []) \<Longrightarrow>
   analyze_feature llm d1 w = analyze_feature llm d2 w"
  by (simp add: analyze_feature_def)

theorem analyze_feature_description_only_witness:
  "dict_get [(str ''lang'', JStr (str ''en'')), (str ''description'', JStr (str ''a cat''))]
     (str ''description'') (JStr []) =
   dict_get [(str ''description'', JStr (str ''a cat''))] (str ''description'') (JStr [])
   \<and> analyze_feature (scripted [] (str ''{\"a\": 1}'') [])
        [(str ''lang'', JStr (str ''en'')), (str ''description'', JStr (str ''a cat''))] fresh =
       analyze_feature (scripted [] (str ''{\"a\": 1}'') [])
        [(str ''description'', JStr (str ''a cat''))] fresh"
proof -
  have same: "dict_get [(str ''lang'', JStr (str ''en'')), (str ''description'', JStr (str ''a cat''))]
     (str ''description'') (JStr []) =
   dict_get [(str ''description'', JStr (str ''a cat''))] (str ''description'') (JStr [])"
    by (simp add: dict_get_def)
  from analyze_feature_description_only [OF same] same show ?thesis
    by simp
qed

text \<open>
  Claim C10. Whatever \<open>process_user_input\<close> returns is a dictionary that has exactly
  one of the keys \<open>workflow\<close> and \<open>error\<close>.
\<close>

theorem workflow_xor_error:
  "fst (process_user_input llm user_input w) = Inr r \<Longrightarrow>
   (\<exists>d. r = JObj d) \<and> (has_key (str ''workflow'') r \<noteq> has_key (str ''error'') r)"
  unfolding process_user_input_def
  by (auto simp: Let_def has_key_def split: prod.splits sum.splits bool.splits if_splits)

theorem workflow_xor_error_witness:
  "fst (process_user_input (scripted general_answer [] []) (str ''hello'') fresh) =
     Inr (JObj [(str ''workflow'', JStr (str ''general_conversation'')),
                (str ''classification'', JStr (str ''General Conversation'')),
                (str ''result'', JObj [(str ''classification'', JStr (str ''General Conversation''))])])
   \<and> has_key (str ''workflow'')
        (JObj [(str ''workflow'', JStr (str ''general_conversation'')),
               (str ''classification'', JStr (str ''General Conversation'')),
               (str ''result'', JObj [(str ''classification'', JStr (str ''General Conversation''))])])
   \<and> \<not> has_key (str ''error'')
        (JObj [(str ''workflow'', JStr (str ''general_conversation'')),
               (str ''classification'', JStr (str ''General Conversation'')),
               (str ''result'', JObj [(str ''classification'', JStr (str ''General Conversation''))])])"
proof -
  have run: "fst (process_user_input (scripted general_answer [] []) (str ''hello'') fresh) =
     Inr (JObj [(str ''workflow'', JStr (str ''general_conversation'')),
                (str ''classification'', JStr (str ''General Conversation'')),
                (str ''result'', JObj [(str ''classification'', JStr (str ''General Conversation''))])])"
    by (simp add: run_general)
  from workflow_xor_error [OF run] run show ?thesis
    by (auto simp: has_key_def)
qed

end
